theory Spec2Isabelle
  imports Main "HOL-Library.Word" "HOL-Library.AList"
begin

unbundle bit_operations_syntax

section \<open>Results of Go calls\<close>

text \<open>
  A Go call either returns or panics.  A panic unwinds the caller, so it is kept apart
  from a returned \<open>error\<close> value: \<open>Panic msg\<close> is the fatal outcome, \<open>Ret v\<close> the
  normal return of \<open>v\<close>.  A Go result of type \<open>error\<close> is an \<open>error option\<close>, with
  \<open>None\<close> for \<open>nil\<close>.
\<close>

datatype 'a result = Panic string | Ret 'a

datatype error =
    ErrTxClosed
  | ErrTxNotWritable
  | ErrFreePagesNotLoaded
  | ErrExternal string

fun is_panic :: "'a result \<Rightarrow> bool" where
  "is_panic (Panic m) = True"
| "is_panic (Ret v) = False"

text \<open>
  Modelled from the spec: \<open>_assert(condition, msg, ...)\<close> is declared in another
  file of the package.  The spec calls it a fatal assertion that aborts unconditionally and is never
  returned as a value.  \<open>assert_go\<close> gives the panic it raises, if any: none when the
  condition holds.  The message keeps its format string, unformatted.
\<close>

definition assert_go :: "bool \<Rightarrow> string \<Rightarrow> string option" where
  "assert_go c msg = (if c then None else Some (''assertion failed: '' @ msg))"

text \<open>Reading through a pointer: a nil pointer panics.\<close>

definition deref :: "'a option \<Rightarrow> ('a \<Rightarrow> 'b result) \<Rightarrow> 'b result" where
  "deref p k = (case p of None \<Rightarrow> Panic ''nil pointer dereference'' | Some v \<Rightarrow> k v)"

section \<open>Pages (page.go)\<close>

type_synonym pgid = "64 word"
type_synonym txid = "64 word"

text \<open>Go's \<open>int\<close> on a 64-bit platform: the bits are kept, \<open>sint\<close> reads the value.\<close>

type_synonym go_int = "64 word"

definition branchPageFlag :: "16 word" where "branchPageFlag = 0x01"
definition leafPageFlag :: "16 word" where "leafPageFlag = 0x02"
definition metaPageFlag :: "16 word" where "metaPageFlag = 0x04"
definition freelistPageFlag :: "16 word" where "freelistPageFlag = 0x10"

text \<open>The table \<open>fastCheckBits\<close>: 17 entries, true at the four page-type flags.\<close>

definition fastCheckBits :: "bool list" where
  "fastCheckBits =
     (replicate 17 False)
       [unat branchPageFlag := True, unat leafPageFlag := True,
        unat metaPageFlag := True, unat freelistPageFlag := True]"

record page =
  id_pg :: pgid
  flags :: "16 word"
  count :: "16 word"
  overflow :: "32 word"

text \<open>
  \<open>fmt.Sprintf("%02x", v)\<close> on an unsigned value: lower-case hexadecimal digits,
  padded with zeros on the left to at least two characters.
\<close>

definition hexdigit :: "nat \<Rightarrow> char" where
  "hexdigit d = ''0123456789abcdef'' ! d"

fun hex_digits :: "nat \<Rightarrow> string" where
  "hex_digits n =
     (if n < 16 then [hexdigit n] else hex_digits (n div 16) @ [hexdigit (n mod 16)])"

declare hex_digits.simps [simp del]

definition sprintf_02x :: "nat \<Rightarrow> string" where
  "sprintf_02x n =
     (let ds = hex_digits n in replicate (2 - length ds) (CHR ''0'') @ ds)"

definition typ_pg :: "page \<Rightarrow> string" where
  "typ_pg p =
     (if flags p AND branchPageFlag \<noteq> 0 then ''branch''
      else if flags p AND leafPageFlag \<noteq> 0 then ''leaf''
      else if flags p AND metaPageFlag \<noteq> 0 then ''meta''
      else if flags p AND freelistPageFlag \<noteq> 0 then ''freelist''
      else ''unknown<'' @ sprintf_02x (unat (flags p)) @ ''>'')"

definition fastCheck :: "page \<Rightarrow> pgid \<Rightarrow> unit result" where
  "fastCheck p i =
     (if id_pg p \<noteq> i
      then Panic ''Page expected to be: %v, but self identifies as %v''
      else if flags p > freelistPageFlag \<or> \<not> fastCheckBits ! unat (flags p)
      then Panic ''page %v: has unexpected type/flags: %x''
      else Ret ())"

subsection \<open>Leaf elements\<close>

record leafPageElement =
  data :: "64 word"

definition flags_leaf :: "leafPageElement \<Rightarrow> 32 word" where
  "flags_leaf n = ucast (drop_bit 63 (data n))"

definition pos :: "leafPageElement \<Rightarrow> 32 word" where
  "pos n = ucast (drop_bit 37 (data n)) AND 0x3FFFFFF"

definition ksize :: "leafPageElement \<Rightarrow> 32 word" where
  "ksize n = ucast (drop_bit 24 (data n)) AND 0x1FFF"

definition vsize :: "leafPageElement \<Rightarrow> 32 word" where
  "vsize n = ucast (data n) AND 0xFFFFFF"

text \<open>
  \<open>fill\<close> overwrites the receiver's word and returns the receiver.  \<open>flags\<close> is a
  \<open>uint32\<close>, \<open>pos\<close> a \<open>uintptr\<close>, the two sizes are \<open>int\<close>; each is converted to
  \<open>uint64\<close> (a zero extension for \<open>flags\<close>, the same bits for the others) and
  shifted into place.
\<close>

definition fill ::
  "leafPageElement \<Rightarrow> 32 word \<Rightarrow> 64 word \<Rightarrow> go_int \<Rightarrow> go_int \<Rightarrow> leafPageElement result"
where
  "fill n flgs ps ks vs =
     (case assert_go (ps \<le> 0x3FFFFFF) ''impossible page offset: %d'' of
        Some m \<Rightarrow> Panic m
      | None \<Rightarrow>
          Ret (n\<lparr>data := push_bit 63 (ucast flgs) OR push_bit 37 ps
                            OR push_bit 24 ks OR vs\<rparr>))"

section \<open>Page-id sequences (page.go)\<close>

text \<open>
  \<open>sort.Search n f\<close> of the standard library: a binary search for the least index
  in \<open>[0, n)\<close> at which \<open>f\<close> holds, \<open>n\<close> when there is none; \<open>search_loop\<close> is its loop.
\<close>

function search_loop :: "nat \<Rightarrow> nat \<Rightarrow> (nat \<Rightarrow> bool) \<Rightarrow> nat" where
  "search_loop i j f =
     (if i < j
      then (let h = (i + j) div 2
            in if \<not> f h then search_loop (h + 1) j f else search_loop i h f)
      else i)"
  by pat_completeness auto
termination
  by (relation "measure (\<lambda>(i, j, f). j - i)") auto

declare search_loop.simps [simp del]

definition Search :: "nat \<Rightarrow> (nat \<Rightarrow> bool) \<Rightarrow> nat" where
  "Search n f = search_loop 0 n f"

lemma search_loop_bounds:
  "i \<le> j \<Longrightarrow> i \<le> search_loop i j f \<and> search_loop i j f \<le> j"
proof (induction i j f rule: search_loop.induct)
  case (1 i j f)
  show ?case
  proof (cases "i < j")
    case False
    then have "search_loop i j f = i"
      by (subst search_loop.simps) simp
    with "1.prems" show ?thesis
      by simp
  next
    case True
    let ?h = "(i + j) div 2"
    from True have h: "i \<le> ?h" "?h < j"
      by auto
    show ?thesis
    proof (cases "f ?h")
      case False
      with "1.IH"(1) [OF True refl] h have "?h + 1 \<le> search_loop (?h + 1) j f \<and> search_loop (?h + 1) j f \<le> j"
        by simp
      with True False h show ?thesis
        by (simp add: search_loop.simps [of i j] Let_def)
    next
      case fh: True
      with "1.IH"(2) [OF True refl] h have "i \<le> search_loop i ?h f \<and> search_loop i ?h f \<le> ?h"
        by simp
      with True fh h show ?thesis
        by (simp add: search_loop.simps [of i j] Let_def)
    qed
  qed
qed

lemma search_loop_first:
  "i < j \<Longrightarrow> search_loop i j f = i \<Longrightarrow> f i"
proof (induction i j f rule: search_loop.induct)
  case (1 i j f)
  let ?h = "(i + j) div 2"
  from "1.prems"(1) have h: "i \<le> ?h" "?h < j"
    by auto
  show ?case
  proof (cases "f ?h")
    case False
    from h have "?h + 1 \<le> search_loop (?h + 1) j f"
      using search_loop_bounds [of "?h + 1" j f] by simp
    with "1.prems" False show ?thesis
      by (simp add: search_loop.simps [of i j] Let_def)
  next
    case fh: True
    with "1.prems" have eq: "search_loop i ?h f = i"
      by (simp add: search_loop.simps [of i j] Let_def)
    show ?thesis
    proof (cases "i < ?h")
      case True
      from "1.IH"(2) [OF "1.prems"(1) refl _ True eq] fh show ?thesis
        by simp
    next
      case False
      with h have "?h = i" by simp
      with fh show ?thesis by simp
    qed
  qed
qed

lemma Search_le: "Search n f \<le> n"
  using search_loop_bounds [of 0 n f] by (simp add: Search_def)

lemma Search_zero: "0 < n \<Longrightarrow> Search n f = 0 \<Longrightarrow> f 0"
  using search_loop_first [of 0 n f] by (simp add: Search_def)

function merge_loop :: "pgid list \<Rightarrow> pgid list \<Rightarrow> pgid list \<Rightarrow> pgid list result" where
  "merge_loop merged lead follow =
     (if length lead > 0
      then (case follow of
              [] \<Rightarrow> Panic ''index out of range''
            | f0 # fs \<Rightarrow>
                (let n = Search (length lead) (\<lambda>i. lead ! i > f0);
                     merged' = merged @ take n lead
                 in if n \<ge> length lead then Ret (merged' @ follow)
                    else merge_loop merged' follow (drop n lead)))
      else Ret (merged @ follow))"
  by pat_completeness auto
termination
proof (relation "measure (\<lambda>(merged, lead, follow).
          2 * (length lead + length follow)
            + (if lead \<noteq> [] \<and> follow \<noteq> [] \<and> hd lead > hd follow then 1 else 0))")
  show "wf (measure (\<lambda>(merged, lead, follow).
          2 * (length lead + length follow)
            + (if lead \<noteq> [] \<and> follow \<noteq> [] \<and> hd lead > hd follow then 1 else 0)))"
    by simp
next
  fix merged lead follow :: "pgid list" and f0 fs n merged'
  assume lead: "0 < length lead" and follow: "follow = f0 # fs"
    and n: "n = Search (length lead) (\<lambda>i. f0 < lead ! i)"
    and "merged' = merged @ take n lead"
    and less: "\<not> length lead \<le> n"
  show "((merged', follow, drop n lead), (merged, lead, follow))
        \<in> measure (\<lambda>(merged, lead, follow).
          2 * (length lead + length follow)
            + (if lead \<noteq> [] \<and> follow \<noteq> [] \<and> hd lead > hd follow then 1 else 0))"
  proof (cases "n = 0")
    case True
    with n lead have "f0 < lead ! 0"
      using Search_zero [of "length lead" "\<lambda>i. f0 < lead ! i"] by simp
    with True lead follow show ?thesis
      by (cases lead) auto
  next
    case False
    with less follow show ?thesis
      by auto
  qed
qed

declare merge_loop.simps [simp del]

definition overlay :: "'a list \<Rightarrow> 'a list \<Rightarrow> 'a list" where
  "overlay dst xs = xs @ drop (length xs) dst"

definition mergepgids :: "pgid list \<Rightarrow> pgid list \<Rightarrow> pgid list \<Rightarrow> pgid list result" where
  "mergepgids dst a b =
     (if length dst < length a + length b
      then Panic ''mergepgids bad len %d < %d + %d''
      else if length a = 0 then Ret (overlay dst b)
      else if length b = 0 then Ret (overlay dst a)
      else (let (lead, follow) = (if b ! 0 < a ! 0 then (b, a) else (a, b))
            in case merge_loop [] lead follow of
                 Panic m \<Rightarrow> Panic m
               | Ret merged \<Rightarrow> Ret (overlay dst merged)))"

definition merge :: "pgid list \<Rightarrow> pgid list \<Rightarrow> pgid list result" where
  "merge a b =
     (if length a = 0 then Ret b
      else if length b = 0 then Ret a
      else mergepgids (replicate (length a + length b) 0) a b)"

section \<open>Transactions (tx.go)\<close>

text \<open>
  A transaction works on a database, a freelist and a bucket tree whose code lies
  in other files of the package.  The model keeps of them what \<open>tx.go\<close> reads and
  writes, and takes their operations as parameters.  The transaction's own statistics
  (\<open>TxStats\<close>, atomic counters and time measurements) are left out.

  Sizes in bytes (\<open>pageSize\<close>, the freelist's \<open>size()\<close>, the two constants) are Go
  \<open>int\<close>s read as mathematical integers; where \<open>tx.go\<close> converts them to \<open>uint64\<close>,
  \<open>int64\<close> or \<open>pgid\<close>, the conversion is written out.
\<close>

text \<open>
  Modelled from the spec: the types \<open>bucket\<close> and \<open>meta\<close> are declared in other
  files of the package.  The spec's meta record holds the current transaction id (\<open>txid\<close>),
  the root bucket descriptor, the page-count high-water mark (\<open>pgid\<close>) and the
  freelist-region selector (\<open>flid\<close>); \<open>tx.go\<close> reads \<open>meta.root.root\<close>, a page id, and
  computes a page id from \<open>flid % 2\<close>, so \<open>flid\<close> has the type of a page id.
\<close>

record bucket =
  root :: pgid

record meta =
  root_meta :: bucket
  pgid :: pgid
  txid :: txid
  flid :: pgid

text \<open>
  Modelled from the spec: the freelist is an external collaborator.  The record holds
  what its reading methods return: \<open>size()\<close>, \<open>free_count()\<close>, \<open>pending_count()\<close>,
  \<open>len(pending)\<close> and \<open>freed(id)\<close>.  Its \<open>write\<close>, \<open>rollback\<close> and \<open>reload\<close> are
  parameters, below.
\<close>

record freelist =
  size_fl :: int
  free_count :: int
  pending_count :: int
  pending_len :: int
  freed :: "pgid \<Rightarrow> bool"

record PageInfo =
  ID :: go_int
  Type :: string
  Count :: go_int
  OverflowCount :: go_int

text \<open>The fields of \<open>db.stats\<close> that \<open>close\<close> sets.\<close>

record Stats =
  FreePageN :: int
  PendingPageN :: int
  PendingN :: int
  FreeAlloc :: int
  FreelistInuse :: int

text \<open>
  \<open>Tx\<close>, as declared in \<open>tx.go\<close>.  There is one database, so the pointer \<open>db\<close> is
  either nil (\<open>None\<close>) or that database.  \<open>meta\<close> points to the transaction's own
  copy of the meta record; \<open>root\<close> is kept as the bucket header it points to; both
  are \<open>None\<close> when nil.  \<open>pages\<close> is a Go map from page ids to pages, \<open>None\<close> when
  nil: an association list, in the order in which \<open>range\<close> happens to go through it.
  The commit handlers are closures, told apart by a number.
\<close>

datatype dbref = DBRef

record Tx =
  writable :: bool
  managed :: bool
  db :: "dbref option"
  meta :: "meta option"
  root_tx :: "bucket option"
  pages :: "(pgid \<times> page) list option"
  commitHandlers :: "nat list"

text \<open>
  Modelled from the spec: the type \<open>DB\<close> is declared in another file of the package.  The
  record has the fields \<open>tx.go\<close> uses: \<open>pageSize\<close>, \<open>StrictMode\<close>, \<open>NoSync\<close>, the
  pointer \<open>freelist\<close> (nil when the free pages were not loaded), \<open>stats\<close>; whether
  \<open>data\<close> is not nil (\<open>data_mapped\<close>), whether \<open>rwtx\<close> is set and whether the writer
  lock is held (\<open>rwlock\<close>); the record that \<open>db.meta()\<close> returns (\<open>meta_db\<close>) and the
  page that \<open>db.page(id)\<close> returns (\<open>page_db\<close>).
\<close>

record DB =
  pageSize :: int
  StrictMode :: bool
  NoSync :: bool
  freelist :: "freelist option"
  data_mapped :: bool
  meta_db :: meta
  page_db :: "pgid \<Rightarrow> page"
  rwtx :: bool
  rwlock :: bool
  stats :: Stats

text \<open>
  The constants \<open>freelistRegionSize\<close> and \<open>maxAllocSize\<close> and the variable
  \<open>IgnoreNoSync\<close> are declared in other files of the package: they are parameters.
\<close>

record config =
  freelistRegionSize :: int
  maxAllocSize :: int
  IgnoreNoSync :: bool

text \<open>
  What a run does is recorded in a trace, in order: the calls of the commit sequence,
  of rollback and close, and the calls that leave the transaction.  A buffer handed
  to \<open>writeAt\<close> is either \<open>sz\<close> bytes of a dirty page from byte \<open>written\<close> on
  (\<open>PageBytes id written sz\<close>) or the buffer of a meta page (\<open>MetaBuf id\<close>).
\<close>

datatype buf = PageBytes pgid int int | MetaBuf pgid

datatype event =
    CallRebalance
  | CallSpill
  | ReplaceRoot
  | CallCommitFreelist
  | PoolGet
  | FreelistWrite pgid
  | CallGrow int
  | CallWrite
  | WriteAt buf int
  | Fdatasync
  | PoolPut pgid
  | CallCheck
  | CallWriteMeta
  | CallRollback
  | FreelistRollback txid
  | FreelistReload
  | CallClose
  | Unlock
  | RemoveTx
  | CommitHandler nat

record world =
  tx :: Tx
  dbw :: DB
  trace :: "event list"

text \<open>
  The operations of the collaborators are parameters.  Each is given what it may
  depend on and returns what \<open>tx.go\<close> reads afterwards.  \<open>rebalance\<close> may free pages:
  it returns the freelist.  \<open>spill\<close> returns its error, and the page cache, the
  high-water mark, the root page and the freelist it leaves behind.  \<open>grow\<close> returns
  its error and whether the data is still mapped.  \<open>grow\<close>, \<open>writeAt\<close> and
  \<open>fdatasync\<close> see the trace so far: the same call may fail at one time and succeed at
  another.  \<open>Check\<close> returns the inconsistencies it reports.  The freelist's \<open>write\<close>
  returns its error and the page as it filled it; \<open>meta.write\<close> returns the page as
  it filled it.
\<close>

record spill_out =
  err_so :: "error option"
  pages_so :: "(pgid \<times> page) list"
  pgid_so :: pgid
  root_so :: pgid
  freelist_so :: "freelist option"

record env =
  rebalance_ext :: "world \<Rightarrow> freelist option"
  spill_ext :: "world \<Rightarrow> spill_out"
  grow_ext :: "event list \<Rightarrow> int \<Rightarrow> error option \<times> bool"
  writeAt_ext :: "event list \<Rightarrow> buf \<Rightarrow> int \<Rightarrow> error option"
  fdatasync_ext :: "event list \<Rightarrow> error option"
  Check_ext :: "world \<Rightarrow> string list"
  freelist_write_ext :: "freelist \<Rightarrow> page \<Rightarrow> error option \<times> page"
  freelist_rollback_ext :: "freelist \<Rightarrow> txid \<Rightarrow> freelist"
  freelist_reload_ext :: "freelist \<Rightarrow> page \<Rightarrow> freelist"
  freelistPage_ext :: "DB \<Rightarrow> page"
  meta_write_ext :: "meta \<Rightarrow> page \<Rightarrow> page"

text \<open>
  Go's conversions to \<open>uint64\<close> and to \<open>int64\<close> wrap around; its division of
  integers truncates towards zero.
\<close>

definition u64 :: "int \<Rightarrow> int" where
  "u64 x = x mod 2 ^ 64"

definition i64 :: "int \<Rightarrow> int" where
  "i64 x = (x + 2 ^ 63) mod 2 ^ 64 - 2 ^ 63"

definition quo :: "int \<Rightarrow> int \<Rightarrow> int" where
  "quo a b = (if (a < 0) = (b < 0) then \<bar>a\<bar> div \<bar>b\<bar> else - (\<bar>a\<bar> div \<bar>b\<bar>))"

definition log_ev :: "event list \<Rightarrow> world \<Rightarrow> world" where
  "log_ev evs w = w\<lparr>trace := trace w @ evs\<rparr>"

text \<open>A page header over a zeroed buffer.\<close>

definition zero_page :: page where
  "zero_page = \<lparr>id_pg = 0, flags = 0, count = 0, overflow = 0\<rparr>"

subsection \<open>init\<close>

definition init :: "DB \<Rightarrow> Tx \<Rightarrow> Tx" where
  "init d t =
     (let t1 = t\<lparr>db := Some DBRef, pages := None, meta := Some (meta_db d),
                  root_tx := Some (root_meta (meta_db d))\<rparr>
      in if writable t1
         then t1\<lparr>pages := Some [],
                 meta := Some ((meta_db d)\<lparr>txid := txid (meta_db d) + 1,
                                            flid := flid (meta_db d) + 1\<rparr>)\<rparr>
         else t1)"

subsection \<open>close and rollback\<close>

definition clear_refs :: "world \<Rightarrow> world" where
  "clear_refs w = w\<lparr>tx := (tx w)\<lparr>db := None, meta := None, root_tx := None, pages := None\<rparr>\<rparr>"

definition close :: "world \<Rightarrow> world result" where
  "close w0 =
     (let w = log_ev [CallClose] w0
      in case db (tx w) of
           None \<Rightarrow> Ret w
         | Some d \<Rightarrow>
             if writable (tx w)
             then deref (freelist (dbw w)) (\<lambda>fl.
                    Ret (clear_refs (log_ev [Unlock]
                      (w\<lparr>dbw := (dbw w)\<lparr>rwtx := False, rwlock := False,
                            stats := \<lparr>FreePageN = free_count fl,
                                       PendingPageN = pending_count fl,
                                       PendingN = pending_len fl,
                                       FreeAlloc = (free_count fl + pending_count fl) * pageSize (dbw w),
                                       FreelistInuse = size_fl fl\<rparr>\<rparr>\<rparr>))))
             else Ret (clear_refs (log_ev [RemoveTx] w)))"

definition rollback :: "env \<Rightarrow> world \<Rightarrow> world result" where
  "rollback en w0 =
     (let w = log_ev [CallRollback] w0
      in case db (tx w) of
           None \<Rightarrow> Ret w
         | Some d \<Rightarrow>
             if writable (tx w)
             then deref (meta (tx w)) (\<lambda>m. deref (freelist (dbw w)) (\<lambda>fl.
                    (let fl1 = freelist_rollback_ext en fl (txid m);
                         w1 = log_ev [FreelistRollback (txid m)] (w\<lparr>dbw := (dbw w)\<lparr>freelist := Some fl1\<rparr>\<rparr>);
                         w2 = (if data_mapped (dbw w1)
                               then log_ev [FreelistReload]
                                      (w1\<lparr>dbw := (dbw w1)\<lparr>freelist :=
                                          Some (freelist_reload_ext en fl1 (freelistPage_ext en (dbw w1)))\<rparr>\<rparr>)
                               else w1)
                     in close w2)))
             else close w)"

text \<open>rollback, then return the error: the tail of every failing step of Commit.\<close>

definition rollback_with :: "env \<Rightarrow> error \<Rightarrow> world \<Rightarrow> (error option \<times> world) result" where
  "rollback_with en e w = (case rollback en w of Panic m \<Rightarrow> Panic m | Ret w' \<Rightarrow> Ret (Some e, w'))"

subsection \<open>commitFreelist\<close>

definition commitFreelist :: "config \<Rightarrow> env \<Rightarrow> world \<Rightarrow> (error option \<times> world) result" where
  "commitFreelist cf en w0 =
     (let w = log_ev [CallCommitFreelist] w0
      in case db (tx w) of
           None \<Rightarrow> Panic ''nil pointer dereference''
         | Some d \<Rightarrow>
             deref (freelist (dbw w)) (\<lambda>fl.
               case assert_go (size_fl fl < freelistRegionSize cf - pageSize (dbw w))
                      ''fatal: freelist too large'' of
                 Some m \<Rightarrow> Panic m
               | None \<Rightarrow>
                   (let size = size_fl fl; ps = pageSize (dbw w)
                    in if \<not> size < ps \<and> ps = 0 then Panic ''integer divide by zero''
                       else
                         (let npages = (if size < ps then 1 else quo size ps + 1);
                              w1 = (if size < ps then log_ev [PoolGet] w else w)
                          in if (if size < ps then ps else npages * ps) \<le> 0
                             then Panic ''index out of range''
                             else
                               deref (meta (tx w1)) (\<lambda>m.
                                 if (word_of_int ps :: pgid) = 0 then Panic ''integer divide by zero''
                                 else
                                   (let p = zero_page\<lparr>
                                              id_pg := 2 + ((flid m mod 2) * word_of_int (freelistRegionSize cf))
                                                            div word_of_int ps,
                                              overflow := word_of_int npages - 1\<rparr>;
                                        (er, p') = freelist_write_ext en fl p;
                                        w2 = log_ev [FreelistWrite (id_pg p)] w1
                                    in case er of
                                         Some e \<Rightarrow> rollback_with en e w2
                                       | None \<Rightarrow>
                                           (case pages (tx w2) of
                                              None \<Rightarrow> Panic ''assignment to entry in nil map''
                                            | Some al \<Rightarrow>
                                                Ret (None, w2\<lparr>tx := (tx w2)\<lparr>pages :=
                                                       Some (AList.update (id_pg p') p' al)\<rparr>\<rparr>))))))))"

subsection \<open>write\<close>

partial_function (option) write_chunks ::
  "config \<Rightarrow> env \<Rightarrow> pgid \<Rightarrow> int \<Rightarrow> int \<Rightarrow> int \<Rightarrow> event list \<Rightarrow> (error option \<times> event list) option"
where
  "write_chunks cf en i rem offset written tr =
     (let sz = (if rem > maxAllocSize cf - 1 then maxAllocSize cf - 1 else rem);
          b = PageBytes i written sz;
          tr' = tr @ [WriteAt b offset]
      in case writeAt_ext en tr b offset of
           Some e \<Rightarrow> Some (Some e, tr')
         | None \<Rightarrow>
             (let rem' = u64 (rem - sz)
              in if rem' = 0 then Some (None, tr')
                 else write_chunks cf en i rem' (i64 (offset + i64 sz)) (u64 (written + u64 sz)) tr'))"

declare write_chunks.simps [code]

fun write_pages ::
  "config \<Rightarrow> env \<Rightarrow> int \<Rightarrow> page list \<Rightarrow> event list \<Rightarrow> (error option \<times> event list) option"
where
  "write_pages cf en ps [] tr = Some (None, tr)"
| "write_pages cf en ps (p # rest) tr =
     (case write_chunks cf en (id_pg p) (u64 ((uint (overflow p) + 1) * u64 ps))
             (i64 (i64 (uint (id_pg p)) * i64 ps)) 0 tr of
        None \<Rightarrow> None
      | Some (Some e, tr') \<Rightarrow> Some (Some e, tr')
      | Some (None, tr') \<Rightarrow> write_pages cf en ps rest tr')"

definition write_tx :: "config \<Rightarrow> env \<Rightarrow> world \<Rightarrow> (error option \<times> world) result option" where
  "write_tx cf en w0 =
     (let w = log_ev [CallWrite] w0;
          sorted = sort_key id_pg (case pages (tx w) of None \<Rightarrow> [] | Some al \<Rightarrow> map snd al);
          w1 = w\<lparr>tx := (tx w)\<lparr>pages := Some []\<rparr>\<rparr>
      in case db (tx w) of
           None \<Rightarrow> Some (Panic ''nil pointer dereference'')
         | Some d \<Rightarrow>
             (case write_pages cf en (pageSize (dbw w1)) sorted (trace w1) of
                None \<Rightarrow> None
              | Some (Some e, tr) \<Rightarrow> Some (Ret (Some e, w1\<lparr>trace := tr\<rparr>))
              | Some (None, tr) \<Rightarrow>
                  (let w2 = w1\<lparr>trace := tr\<rparr>;
                       pool = map (\<lambda>p. PoolPut (id_pg p)) (filter (\<lambda>p. overflow p = 0) sorted)
                   in if \<not> NoSync (dbw w2) \<or> IgnoreNoSync cf
                      then (case fdatasync_ext en (trace w2) of
                              Some e \<Rightarrow> Some (Ret (Some e, log_ev [Fdatasync] w2))
                            | None \<Rightarrow> Some (Ret (None, log_ev (Fdatasync # pool) w2)))
                      else Some (Ret (None, log_ev pool w2)))))"

subsection \<open>writeMeta\<close>

definition writeMeta :: "config \<Rightarrow> env \<Rightarrow> world \<Rightarrow> (error option \<times> world) result" where
  "writeMeta cf en w0 =
     (let w = log_ev [CallWriteMeta] w0
      in case db (tx w) of
           None \<Rightarrow> Panic ''nil pointer dereference''
         | Some d \<Rightarrow>
             deref (meta (tx w)) (\<lambda>m.
               (let p = meta_write_ext en m zero_page;
                    b = MetaBuf (id_pg p);
                    off = i64 (i64 (uint (id_pg p)) * i64 (pageSize (dbw w)));
                    w1 = log_ev [WriteAt b off] w
                in case writeAt_ext en (trace w) b off of
                     Some e \<Rightarrow> Ret (Some e, w1)
                   | None \<Rightarrow>
                       if \<not> NoSync (dbw w1) \<or> IgnoreNoSync cf
                       then (case fdatasync_ext en (trace w1) of
                               Some e \<Rightarrow> Ret (Some e, log_ev [Fdatasync] w1)
                             | None \<Rightarrow> Ret (None, log_ev [Fdatasync] w1))
                       else Ret (None, w1))))"


subsection \<open>Commit\<close>

definition run_handlers :: "world \<Rightarrow> world" where
  "run_handlers w = log_ev (map CommitHandler (commitHandlers (tx w))) w"

definition commit_finish :: "config \<Rightarrow> env \<Rightarrow> world \<Rightarrow> (error option \<times> world) result" where
  "commit_finish cf en w =
     (case writeMeta cf en w of
        Panic m \<Rightarrow> Panic m
      | Ret (Some e, w1) \<Rightarrow> rollback_with en e w1
      | Ret (None, w1) \<Rightarrow>
          (case close w1 of
             Panic m \<Rightarrow> Panic m
           | Ret w2 \<Rightarrow> Ret (None, run_handlers w2)))"

text \<open>\<open>strings.Join\<close> of the standard library.\<close>

fun Join :: "string list \<Rightarrow> string \<Rightarrow> string" where
  "Join [] sep = []"
| "Join [x] sep = x"
| "Join (x # y # ys) sep = x @ sep @ Join (y # ys) sep"

definition commit_check :: "config \<Rightarrow> env \<Rightarrow> world \<Rightarrow> (error option \<times> world) result" where
  "commit_check cf en w =
     (if StrictMode (dbw w)
      then (let errs = Check_ext en w; w1 = log_ev [CallCheck] w
            in if length errs > 0
               then Panic (''check fail: '' @ Join errs [CHR 0x0A])
               else commit_finish cf en w1)
      else commit_finish cf en w)"

definition commit_write :: "config \<Rightarrow> env \<Rightarrow> world \<Rightarrow> (error option \<times> world) result option" where
  "commit_write cf en w =
     (case write_tx cf en w of
        None \<Rightarrow> None
      | Some (Panic m) \<Rightarrow> Some (Panic m)
      | Some (Ret (Some e, w1)) \<Rightarrow> Some (rollback_with en e w1)
      | Some (Ret (None, w1)) \<Rightarrow> Some (commit_check cf en w1))"

definition commit_grow :: "config \<Rightarrow> env \<Rightarrow> pgid \<Rightarrow> world \<Rightarrow> (error option \<times> world) result option" where
  "commit_grow cf en opgid w =
     (case meta (tx w) of
        None \<Rightarrow> Some (Panic ''nil pointer dereference'')
      | Some m \<Rightarrow>
          if pgid m > opgid
          then (let sz = i64 (i64 (uint (pgid m + 1)) * pageSize (dbw w));
                    (er, mapped) = grow_ext en (trace w) sz;
                    w1 = log_ev [CallGrow sz] (w\<lparr>dbw := (dbw w)\<lparr>data_mapped := mapped\<rparr>\<rparr>)
                in case er of
                     Some e \<Rightarrow> Some (rollback_with en e w1)
                   | None \<Rightarrow> commit_write cf en w1)
          else commit_write cf en w)"

definition after_rebalance :: "env \<Rightarrow> world \<Rightarrow> world" where
  "after_rebalance en w =
     log_ev [CallRebalance] (w\<lparr>dbw := (dbw w)\<lparr>freelist := rebalance_ext en w\<rparr>\<rparr>)"

definition Commit :: "config \<Rightarrow> env \<Rightarrow> world \<Rightarrow> (error option \<times> world) result option" where
  "Commit cf en w =
     (case assert_go (\<not> managed (tx w)) ''managed tx commit not allowed'' of
        Some m \<Rightarrow> Some (Panic m)
      | None \<Rightarrow>
          if db (tx w) = None then Some (Ret (Some ErrTxClosed, w))
          else if \<not> writable (tx w) then Some (Ret (Some ErrTxNotWritable, w))
          else
            (let w1 = after_rebalance en w
             in case (meta (tx w1), root_tx (tx w1)) of
                  (Some m, Some r) \<Rightarrow>
                    (let opgid = pgid m;
                         so = spill_ext en w1;
                         m2 = m\<lparr>pgid := pgid_so so\<rparr>;
                         r2 = r\<lparr>root := root_so so\<rparr>;
                         w2 = log_ev [CallSpill]
                                (w1\<lparr>tx := (tx w1)\<lparr>pages := Some (pages_so so), meta := Some m2,
                                                   root_tx := Some r2\<rparr>,
                                    dbw := (dbw w1)\<lparr>freelist := freelist_so so\<rparr>\<rparr>)
                     in case err_so so of
                          Some e \<Rightarrow> Some (rollback_with en e w2)
                        | None \<Rightarrow>
                            (let w3 = log_ev [ReplaceRoot]
                                        (w2\<lparr>tx := (tx w2)\<lparr>meta :=
                                             Some (m2\<lparr>root_meta := (root_meta m2)\<lparr>root := root r2\<rparr>\<rparr>)\<rparr>\<rparr>)
                             in case commitFreelist cf en w3 of
                                  Panic msg \<Rightarrow> Some (Panic msg)
                                | Ret (Some e, w4) \<Rightarrow> Some (Ret (Some e, w4))
                                | Ret (None, w4) \<Rightarrow> commit_grow cf en opgid w4))
                | _ \<Rightarrow> Some (Panic ''nil pointer dereference'')))"

subsection \<open>Page\<close>

definition Page :: "world \<Rightarrow> go_int \<Rightarrow> (PageInfo option \<times> error option) result" where
  "Page w i =
     (if db (tx w) = None then Ret (None, Some ErrTxClosed)
      else deref (meta (tx w)) (\<lambda>m.
        if (i :: pgid) \<ge> pgid m then Ret (None, None)
        else
          (case freelist (dbw w) of
             None \<Rightarrow> Ret (None, Some ErrFreePagesNotLoaded)
           | Some fl \<Rightarrow>
               (let p = page_db (dbw w) i;
                    info = \<lparr>ID = i, Type = [], Count = ucast (count p),
                            OverflowCount = ucast (overflow p)\<rparr>
                in Ret (Some (if freed fl i then info\<lparr>Type := ''free''\<rparr>
                              else info\<lparr>Type := typ_pg p\<rparr>), None)))))"

section \<open>Reading the trace of a write\<close>

text \<open>
  The writes of page bytes that a trace records, in order; and, to state what
  \<open>write\<close> emits, the chunks of one page: \<open>chunk_list cap rem wr\<close> cuts \<open>rem\<close> bytes
  that start at byte \<open>wr\<close> of the page into pieces of at most \<open>cap\<close> bytes.
\<close>

record pwrite =
  pw_page :: pgid
  pw_start :: int
  pw_size :: int
  pw_offset :: int

fun page_writes :: "event list \<Rightarrow> pwrite list" where
  "page_writes [] = []"
| "page_writes (WriteAt (PageBytes i wr sz) off # es) =
     \<lparr>pw_page = i, pw_start = wr, pw_size = sz, pw_offset = off\<rparr> # page_writes es"
| "page_writes (e # es) = page_writes es"

function chunk_list :: "int \<Rightarrow> int \<Rightarrow> int \<Rightarrow> (int \<times> int) list" where
  "chunk_list cap rem wr =
     (let sz = (if rem > cap then cap else rem)
      in (wr, sz) # (if rem - sz = 0 \<or> cap \<le> 0 then [] else chunk_list cap (rem - sz) (wr + sz)))"
  by pat_completeness auto
termination
  by (relation "measure (\<lambda>(cap, rem, wr). nat rem)") (auto split: if_splits)

declare chunk_list.simps [simp del]

definition page_chunks :: "int \<Rightarrow> int \<Rightarrow> page \<Rightarrow> pwrite list" where
  "page_chunks cap ps p =
     map (\<lambda>(wr, sz). \<lparr>pw_page = id_pg p, pw_start = wr, pw_size = sz,
                         pw_offset = uint (id_pg p) * ps + wr\<rparr>)
       (chunk_list cap ((uint (overflow p) + 1) * ps) 0)"

definition chunk_events :: "int \<Rightarrow> int \<Rightarrow> page \<Rightarrow> event list" where
  "chunk_events cap ps p =
     map (\<lambda>(wr, sz). WriteAt (PageBytes (id_pg p) wr sz) (uint (id_pg p) * ps + wr))
       (chunk_list cap ((uint (overflow p) + 1) * ps) 0)"

text \<open>
  The steps of a commit that a trace records: the calls of the commit sequence, of
  rollback and close, the release of the writer lock and the commit handlers.  The
  input and output below them (writes, syncs, the buffer pool, the freelist's own
  calls) are left out.
\<close>

fun is_step :: "event \<Rightarrow> bool" where
  "is_step CallRebalance = True"
| "is_step CallSpill = True"
| "is_step ReplaceRoot = True"
| "is_step CallCommitFreelist = True"
| "is_step (CallGrow sz) = True"
| "is_step CallWrite = True"
| "is_step CallCheck = True"
| "is_step CallWriteMeta = True"
| "is_step CallRollback = True"
| "is_step CallClose = True"
| "is_step Unlock = True"
| "is_step (CommitHandler h) = True"
| "is_step e = False"

definition steps :: "event list \<Rightarrow> event list" where
  "steps tr = filter is_step tr"


section \<open>A concrete database\<close>

definition meta0 :: meta where
  "meta0 = \<lparr>root_meta = \<lparr>root = 3\<rparr>, pgid = 8, txid = 41, flid = 6\<rparr>"

definition freelist0 :: freelist where
  "freelist0 = \<lparr>size_fl = 24, free_count = 1, pending_count = 0, pending_len = 0,
                 freed = (\<lambda>i. i = 5)\<rparr>"

definition db0 :: DB where
  "db0 = \<lparr>pageSize = 4096, StrictMode = False, NoSync = False, freelist = Some freelist0,
           data_mapped = True, meta_db = meta0,
           page_db = (\<lambda>i. \<lparr>id_pg = i, flags = (if i < 2 then metaPageFlag else leafPageFlag),
                              count = 2, overflow = 0\<rparr>),
           rwtx = True, rwlock = True,
           stats = \<lparr>FreePageN = 0, PendingPageN = 0, PendingN = 0, FreeAlloc = 0,
                     FreelistInuse = 0\<rparr>\<rparr>"

definition tx0 :: Tx where
  "tx0 = \<lparr>writable = True, managed = False, db = None, meta = None, root_tx = None,
           pages = None, commitHandlers = [0, 1]\<rparr>"

definition world0 :: "bool \<Rightarrow> world" where
  "world0 wr = \<lparr>tx = init db0 (tx0\<lparr>writable := wr\<rparr>), dbw = db0, trace = []\<rparr>"

definition config0 :: config where
  "config0 = \<lparr>freelistRegionSize = 65536, maxAllocSize = 0x7FFFFFFF, IgnoreNoSync = False\<rparr>"

definition env0 :: env where
  "env0 = \<lparr>rebalance_ext = (\<lambda>w. freelist (dbw w)),
            spill_ext = (\<lambda>w. \<lparr>err_so = None,
                                pages_so = [(9, \<lparr>id_pg = 9, flags = leafPageFlag, count = 3, overflow = 1\<rparr>),
                                            (8, \<lparr>id_pg = 8, flags = leafPageFlag, count = 1, overflow = 0\<rparr>)],
                                pgid_so = 11, root_so = 8, freelist_so = freelist (dbw w)\<rparr>),
            grow_ext = (\<lambda>tr sz. (None, True)),
            writeAt_ext = (\<lambda>tr b off. None),
            fdatasync_ext = (\<lambda>tr. None),
            Check_ext = (\<lambda>w. []),
            freelist_write_ext = (\<lambda>fl p. (None, p\<lparr>flags := freelistPageFlag, count := 1\<rparr>)),
            freelist_rollback_ext = (\<lambda>fl t. fl),
            freelist_reload_ext = (\<lambda>fl p. fl),
            freelistPage_ext = (\<lambda>d. page_db d 2),
            meta_write_ext = (\<lambda>m p. p\<lparr>id_pg := txid m mod 2, flags := metaPageFlag\<rparr>)\<rparr>"

definition pages9 :: "(pgid \<times> page) list" where
  "pages9 = [(9, \<lparr>id_pg = 9, flags = leafPageFlag, count = 3, overflow = 1\<rparr>),
             (8, \<lparr>id_pg = 8, flags = leafPageFlag, count = 1, overflow = 0\<rparr>)]"

definition world9 :: world where
  "world9 = (world0 True)\<lparr>tx := (tx (world0 True))\<lparr>pages := Some pages9\<rparr>\<rparr>"

definition config9 :: config where
  "config9 = config0\<lparr>maxAllocSize := 5001\<rparr>"




section \<open>Verified properties\<close>

subsection \<open>Word facts\<close>

lemma uint_sint_nonneg:
  fixes k :: "64 word"
  assumes "0 \<le> sint k"
  shows "uint k = sint k"
proof -
  have "sint k < 2 ^ 64"
    using sint_less [of k] by simp
  then have "take_bit 64 (sint k) = sint k"
    using assms by (simp add: take_bit_int_eq_self)
  then show ?thesis
    by (simp add: uint_sint)
qed

lemma take_bit_self_uint:
  fixes w :: "'a::len word"
  assumes "uint w < 2 ^ n"
  shows "take_bit n w = w"
proof -
  have "uint (take_bit n w) = uint w"
    using assms by (simp add: unsigned_take_bit_eq take_bit_int_eq_self)
  then show ?thesis
    by (simp only: word_uint_eq_iff)
qed

lemma field_masks:
  "(0x3FFFFFF :: 32 word) = mask 26"
  "(0x1FFF :: 32 word) = mask 13"
  "(0xFFFFFF :: 32 word) = mask 24"
  by (simp_all add: mask_eq_exp_minus_1)

lemma uint_ucast_small:
  fixes w :: "64 word"
  assumes "uint w < 2 ^ 32"
  shows "uint (ucast w :: 32 word) = uint w"
  using assms by (simp add: unsigned_ucast_eq take_bit_int_eq_self)

subsection \<open>Packing and unpacking a leaf element\<close>

lemma unpack_flags:
  fixes f :: "32 word" and p k v :: "64 word"
  assumes "take_bit 1 f = f" "take_bit 26 p = p" "take_bit 13 k = k" "take_bit 24 v = v"
  shows "(ucast (drop_bit 63 (push_bit 63 (ucast f) OR push_bit 37 p
            OR push_bit 24 k OR v :: 64 word)) :: 32 word) = f"
  apply (subst (2) assms(1)[symmetric])
  apply (subst (1) assms(2)[symmetric])
  apply (subst (1) assms(3)[symmetric])
  apply (subst (1) assms(4)[symmetric])
  apply (rule bit_word_eqI)
  apply (auto simp add: bit_simps bit_0)
  done

lemma unpack_pos:
  fixes f :: "32 word" and p k v :: "64 word"
  assumes "take_bit 26 p = p" "take_bit 13 k = k" "take_bit 24 v = v"
  shows "(ucast (drop_bit 37 (push_bit 63 (ucast f) OR push_bit 37 p
            OR push_bit 24 k OR v :: 64 word)) AND 0x3FFFFFF :: 32 word) = ucast p"
  apply (subst (2) assms(1)[symmetric])
  apply (subst (1) assms(2)[symmetric])
  apply (subst (1) assms(3)[symmetric])
  apply (rule bit_word_eqI)
  apply (auto simp add: bit_simps field_masks)
  done

lemma unpack_ksize:
  fixes f :: "32 word" and p k v :: "64 word"
  assumes "take_bit 13 k = k" "take_bit 24 v = v"
  shows "(ucast (drop_bit 24 (push_bit 63 (ucast f) OR push_bit 37 p
            OR push_bit 24 k OR v :: 64 word)) AND 0x1FFF :: 32 word) = ucast k"
  apply (subst (2) assms(1)[symmetric])
  apply (subst (1) assms(2)[symmetric])
  apply (rule bit_word_eqI)
  apply (auto simp add: bit_simps field_masks)
  done

lemma unpack_vsize:
  fixes f :: "32 word" and p k v :: "64 word"
  assumes "take_bit 24 v = v"
  shows "(ucast (push_bit 63 (ucast f) OR push_bit 37 p
            OR push_bit 24 k OR v :: 64 word) AND 0xFFFFFF :: 32 word) = ucast v"
  apply (subst (2) assms(1)[symmetric])
  apply (rule bit_word_eqI)
  apply (auto simp add: bit_simps field_masks)
  done

text \<open>
  Claim C2.  For \<open>flags\<close> in \<open>{0, 1}\<close>, an offset of at most \<open>2^26 - 1\<close>, a key
  length between 0 and \<open>2^13 - 1\<close> and a value length between 0 and \<open>2^24 - 1\<close>,
  \<open>fill\<close> returns an element (the assertion on the offset passes) whose accessors
  \<open>flags()\<close>, \<open>pos()\<close>, \<open>ksize()\<close> and \<open>vsize()\<close> give back the four inputs.  The
  accessors return \<open>uint32\<close> while the offset is a \<open>uintptr\<close> and the lengths are
  \<open>int\<close>, so the values are compared as numbers.
\<close>

theorem fill_roundtrip:
  assumes "flgs = 0 \<or> flgs = 1"
    and "ps \<le> 0x3FFFFFF"
    and "0 \<le> sint ks" and "sint ks \<le> 8191"
    and "0 \<le> sint vs" and "sint vs \<le> 16777215"
  shows "\<exists>e. fill n flgs ps ks vs = Ret e
           \<and> flags_leaf e = flgs
           \<and> unat (pos e) = unat ps
           \<and> uint (ksize e) = sint ks
           \<and> uint (vsize e) = sint vs"
proof -
  have f1: "take_bit 1 flgs = flgs"
    using assms(1) by auto
  have up: "uint ps < 2 ^ 26"
    using assms(2) by (simp add: word_le_def)
  have uk: "uint ks = sint ks" and uv: "uint vs = sint vs"
    using assms(3,5) by (simp_all add: uint_sint_nonneg)
  have p26: "take_bit 26 ps = ps"
    using up by (rule take_bit_self_uint)
  have k13: "take_bit 13 ks = ks"
    using uk assms(4) by (intro take_bit_self_uint) simp
  have v24: "take_bit 24 vs = vs"
    using uv assms(6) by (intro take_bit_self_uint) simp
  note le = assms(2)
  let ?w = "push_bit 63 (ucast flgs) OR push_bit 37 ps OR push_bit 24 ks OR vs"
  let ?e = "n\<lparr>data := ?w\<rparr>"
  have d: "data ?e = ?w"
    by simp
  have r: "fill n flgs ps ks vs = Ret ?e"
    using le by (simp add: fill_def assert_go_def)
  have c1: "flags_leaf ?e = flgs"
    unfolding flags_leaf_def d by (rule unpack_flags [OF f1 p26 k13 v24])
  have e2: "pos ?e = ucast ps"
    unfolding pos_def d by (rule unpack_pos [OF p26 k13 v24])
  have e3: "ksize ?e = ucast ks"
    unfolding ksize_def d by (rule unpack_ksize [OF k13 v24])
  have e4: "vsize ?e = ucast vs"
    unfolding vsize_def d by (rule unpack_vsize [OF v24])
  have "uint (ucast ps :: 32 word) = uint ps"
    using up by (intro uint_ucast_small) simp
  then have c2: "unat (pos ?e) = unat ps"
    by (simp only: e2 unat_eq_nat_uint)
  have "uint (ucast ks :: 32 word) = uint ks"
    using uk assms(4) by (intro uint_ucast_small) simp
  then have c3: "uint (ksize ?e) = sint ks"
    by (simp only: e3 uk)
  have "uint (ucast vs :: 32 word) = uint vs"
    using uv assms(6) by (intro uint_ucast_small) simp
  then have c4: "uint (vsize ?e) = sint vs"
    by (simp only: e4 uv)
  from r c1 c2 c3 c4 show ?thesis
    by blast
qed

theorem fill_roundtrip_witness:
  "((1::32 word) = 0 \<or> (1::32 word) = 1) \<and> (5 :: 64 word) \<le> 0x3FFFFFF
   \<and> 0 \<le> sint (7 :: 64 word) \<and> sint (7 :: 64 word) \<le> 8191
   \<and> 0 \<le> sint (9 :: 64 word) \<and> sint (9 :: 64 word) \<le> 16777215
   \<and> (\<exists>e. fill \<lparr>data = 0\<rparr> 1 5 7 9 = Ret e \<and> flags_leaf e = 1 \<and> unat (pos e) = unat (5 :: 64 word)
          \<and> uint (ksize e) = sint (7 :: 64 word) \<and> uint (vsize e) = sint (9 :: 64 word))"
  using fill_roundtrip [of 1 5 7 9 "\<lparr>data = 0\<rparr>"] by simp

text \<open>
  Claim C1, as stated, fails: \<open>fill\<close> asserts only the offset.  With a key length of
  8192 (one more than \<open>2^13 - 1\<close>) and everything else zero the call returns; bit 13 of
  the length lands in the offset field, so the element reads back with key length 0
  and offset 1.
\<close>

theorem fill_oversized_counterexample:
  "fill \<lparr>data = 0\<rparr> 0 0 8192 0 = Ret \<lparr>data = 0x2000000000\<rparr>
   \<and> ksize \<lparr>data = 0x2000000000\<rparr> = 0 \<and> pos \<lparr>data = 0x2000000000\<rparr> = 1"
  by (simp add: fill_def assert_go_def ksize_def pos_def)

text \<open>
  Claim C1, amended.  \<open>fill\<close> is rejected by its fatal assertion, before anything is
  packed, exactly when the offset exceeds \<open>2^26 - 1\<close> (\<open>0x3FFFFFF\<close>); the key and
  value lengths play no part in the rejection.
\<close>

theorem fill_rejects_pos_only:
  "is_panic (fill n flgs ps ks vs) \<longleftrightarrow> 0x3FFFFFF < ps"
  by (auto simp add: fill_def assert_go_def)


subsection \<open>Page types\<close>

lemma flag_tests:
  fixes f :: "16 word"
  shows "f AND branchPageFlag \<noteq> 0 \<longleftrightarrow> bit f 0"
    and "f AND leafPageFlag \<noteq> 0 \<longleftrightarrow> bit f 1"
    and "f AND metaPageFlag \<noteq> 0 \<longleftrightarrow> bit f 2"
    and "f AND freelistPageFlag \<noteq> 0 \<longleftrightarrow> bit f 4"
  using bit_iff_and_push_bit_not_eq_0 [of f 0] bit_iff_and_push_bit_not_eq_0 [of f 1]
    bit_iff_and_push_bit_not_eq_0 [of f 2] bit_iff_and_push_bit_not_eq_0 [of f 4]
  by (simp_all add: branchPageFlag_def leafPageFlag_def metaPageFlag_def freelistPageFlag_def)

lemma fastCheckBits_nth:
  assumes "k \<le> 16"
  shows "fastCheckBits ! k \<longleftrightarrow> k = 1 \<or> k = 2 \<or> k = 4 \<or> k = 16"
proof -
  have "list_all (\<lambda>k. fastCheckBits ! k \<longleftrightarrow> k = 1 \<or> k = 2 \<or> k = 4 \<or> k = 16) [0..<17]"
    by code_simp
  moreover from assms have "k \<in> set [0..<17]"
    by simp
  ultimately show ?thesis
    unfolding list_all_iff by blast
qed

lemma fastCheck_own_id:
  "fastCheck p (id_pg p) = Ret () \<longleftrightarrow> flags p \<in> {1, 2, 4, 0x10}"
proof (cases "flags p > freelistPageFlag")
  case True
  then have "flags p \<notin> {1, 2, 4, 0x10}"
    by (auto simp add: freelistPageFlag_def)
  with True show ?thesis
    by (simp add: fastCheck_def)
next
  case False
  then have le: "unat (flags p) \<le> 16"
    by (simp add: freelistPageFlag_def word_less_nat_alt)
  have "fastCheckBits ! unat (flags p) \<longleftrightarrow> flags p \<in> {1, 2, 4, 0x10}"
    unfolding fastCheckBits_nth [OF le]
    by (simp add: word_unat_eq_iff)
  with False show ?thesis
    by (simp add: fastCheck_def)
qed

lemma sprintf_02x_example: "sprintf_02x 0x28 = ''28''"
  by code_simp

text \<open>
  Claim C10.  \<open>typ()\<close> has a value for every \<open>flags\<close> (it is a total function into
  strings, with no failure outcome) and classifies by precedence: \<open>branch\<close> whenever
  bit 0 is set, whatever the other bits; otherwise \<open>leaf\<close> on bit 1, otherwise
  \<open>meta\<close> on bit 2, otherwise \<open>freelist\<close> on bit 4, otherwise \<open>unknown<..>\<close> with
  the flags in hexadecimal.  \<open>fastCheck\<close>, called with the page's own id, panics on
  every \<open>flags\<close> value other than the four single type flags; \<open>typ()\<close> still
  classifies such a page.
\<close>

theorem typ_pg_precedence:
  "(bit (flags p) 0 \<longrightarrow> typ_pg p = ''branch'')
   \<and> (\<not> bit (flags p) 0 \<and> bit (flags p) 1 \<longrightarrow> typ_pg p = ''leaf'')
   \<and> (\<not> bit (flags p) 0 \<and> \<not> bit (flags p) 1 \<and> bit (flags p) 2 \<longrightarrow> typ_pg p = ''meta'')
   \<and> (\<not> bit (flags p) 0 \<and> \<not> bit (flags p) 1 \<and> \<not> bit (flags p) 2 \<and> bit (flags p) 4
        \<longrightarrow> typ_pg p = ''freelist'')
   \<and> (\<not> bit (flags p) 0 \<and> \<not> bit (flags p) 1 \<and> \<not> bit (flags p) 2 \<and> \<not> bit (flags p) 4
        \<longrightarrow> typ_pg p = ''unknown<'' @ sprintf_02x (unat (flags p)) @ ''>'')
   \<and> (flags p \<notin> {1, 2, 4, 0x10} \<longrightarrow> is_panic (fastCheck p (id_pg p)))"
proof -
  have "flags p \<notin> {1, 2, 4, 0x10} \<longrightarrow> is_panic (fastCheck p (id_pg p))"
  proof
    assume "flags p \<notin> {1, 2, 4, 0x10}"
    then have "fastCheck p (id_pg p) \<noteq> Ret ()"
      by (simp only: fastCheck_own_id not_False_eq_True)
    then show "is_panic (fastCheck p (id_pg p))"
      by (cases "fastCheck p (id_pg p)") simp_all
  qed
  then show ?thesis
    by (simp add: typ_pg_def flag_tests)
qed

theorem typ_pg_precedence_witness:
  "typ_pg \<lparr>id_pg = 7, flags = 3, count = 0, overflow = 0\<rparr> = ''branch''
   \<and> is_panic (fastCheck \<lparr>id_pg = 7, flags = 3, count = 0, overflow = 0\<rparr> 7)
   \<and> typ_pg \<lparr>id_pg = 7, flags = 6, count = 0, overflow = 0\<rparr> = ''leaf''
   \<and> typ_pg \<lparr>id_pg = 7, flags = 0x14, count = 0, overflow = 0\<rparr> = ''meta''
   \<and> typ_pg \<lparr>id_pg = 7, flags = 0x10, count = 0, overflow = 0\<rparr> = ''freelist''
   \<and> typ_pg \<lparr>id_pg = 7, flags = 0x28, count = 0, overflow = 0\<rparr>
         = ''unknown<28>''"
  using typ_pg_precedence [of "\<lparr>id_pg = 7, flags = 3, count = 0, overflow = 0\<rparr>"]
    typ_pg_precedence [of "\<lparr>id_pg = 7, flags = 6, count = 0, overflow = 0\<rparr>"]
    typ_pg_precedence [of "\<lparr>id_pg = 7, flags = 0x14, count = 0, overflow = 0\<rparr>"]
    typ_pg_precedence [of "\<lparr>id_pg = 7, flags = 0x10, count = 0, overflow = 0\<rparr>"]
    typ_pg_precedence [of "\<lparr>id_pg = 7, flags = 0x28, count = 0, overflow = 0\<rparr>"]
  by (simp add: bit_0 sprintf_02x_example)

subsection \<open>Merging page-id sequences\<close>

lemma search_loop_partition:
  assumes "\<And>k l. i \<le> k \<Longrightarrow> k \<le> l \<Longrightarrow> l < j \<Longrightarrow> f k \<Longrightarrow> f l"
  shows "(\<forall>k. i \<le> k \<and> k < search_loop i j f \<longrightarrow> \<not> f k)
       \<and> (\<forall>k. search_loop i j f \<le> k \<and> k < j \<longrightarrow> f k)"
  using assms
proof (induction i j f rule: search_loop.induct)
  case (1 i j f)
  show ?case
  proof (cases "i < j")
    case False
    then have "search_loop i j f = i"
      by (subst search_loop.simps) simp
    with False show ?thesis
      by auto
  next
    case True
    let ?h = "(i + j) div 2"
    from True have h: "i \<le> ?h" "?h < j"
      by auto
    show ?thesis
    proof (cases "f ?h")
      case False
      then have eq: "search_loop i j f = search_loop (?h + 1) j f"
        using True by (subst search_loop.simps) (simp add: Let_def)
      have low: "\<not> f k" if "i \<le> k" "k \<le> ?h" for k
        using "1.prems" [of k ?h] that h False by blast
      have ih: "(\<forall>k. ?h + 1 \<le> k \<and> k < search_loop (?h + 1) j f \<longrightarrow> \<not> f k)
          \<and> (\<forall>k. search_loop (?h + 1) j f \<le> k \<and> k < j \<longrightarrow> f k)"
      proof (rule "1.IH"(1) [OF True refl False])
        fix k l assume "?h + 1 \<le> k" "k \<le> l" "l < j" "f k"
        with h show "f l"
          using "1.prems" [of k l] by simp
      qed
      show ?thesis
        unfolding eq
      proof (intro conjI allI impI)
        fix k assume k: "i \<le> k \<and> k < search_loop (?h + 1) j f"
        show "\<not> f k"
        proof (cases "k \<le> ?h")
          case True
          with k show ?thesis by (simp add: low)
        next
          case False
          then have "?h + 1 \<le> k" by simp
          with k ih show ?thesis by blast
        qed
      next
        fix k assume "search_loop (?h + 1) j f \<le> k \<and> k < j"
        with ih show "f k" by blast
      qed
    next
      case fh: True
      then have eq: "search_loop i j f = search_loop i ?h f"
        using True by (subst search_loop.simps) (simp add: Let_def)
      have high: "f k" if "?h \<le> k" "k < j" for k
        using "1.prems" [of ?h k] that h fh by blast
      have ih: "(\<forall>k. i \<le> k \<and> k < search_loop i ?h f \<longrightarrow> \<not> f k)
          \<and> (\<forall>k. search_loop i ?h f \<le> k \<and> k < ?h \<longrightarrow> f k)"
      proof (rule "1.IH"(2) [OF True refl])
        show "\<not> \<not> f ?h" using fh by simp
        fix k l assume "i \<le> k" "k \<le> l" "l < ?h" "f k"
        with h show "f l"
          using "1.prems" [of k l] by simp
      qed
      show ?thesis
        unfolding eq
      proof (intro conjI allI impI)
        fix k assume "i \<le> k \<and> k < search_loop i ?h f"
        with ih show "\<not> f k" by blast
      next
        fix k assume k: "search_loop i ?h f \<le> k \<and> k < j"
        show "f k"
        proof (cases "k < ?h")
          case True
          with k ih show ?thesis by blast
        next
          case False
          with k show ?thesis by (simp add: high)
        qed
      qed
    qed
  qed
qed

lemma Search_sorted:
  fixes lead :: "pgid list" and x :: pgid
  assumes "sorted_wrt (<) lead"
  defines "n \<equiv> Search (length lead) (\<lambda>i. lead ! i > x)"
  shows "n \<le> length lead"
    and "\<forall>y \<in> set (take n lead). y \<le> x"
    and "\<forall>y \<in> set (drop n lead). x < y"
proof -
  have mono: "x < lead ! l" if "k \<le> l" "l < length lead" "x < lead ! k" for k l
  proof -
    from assms(1) that have "lead ! k \<le> lead ! l"
      by (cases "k = l") (auto simp add: sorted_wrt_iff_nth_less intro: less_imp_le)
    with that show ?thesis by simp
  qed
  have "(\<forall>k. 0 \<le> k \<and> k < search_loop 0 (length lead) (\<lambda>i. lead ! i > x) \<longrightarrow> \<not> x < lead ! k)
      \<and> (\<forall>k. search_loop 0 (length lead) (\<lambda>i. lead ! i > x) \<le> k \<and> k < length lead \<longrightarrow> x < lead ! k)"
    by (rule search_loop_partition) (use mono in blast)
  then have part: "(\<forall>k. k < n \<longrightarrow> \<not> x < lead ! k)
      \<and> (\<forall>k. n \<le> k \<and> k < length lead \<longrightarrow> x < lead ! k)"
    unfolding n_def Search_def by blast
  have low: "\<not> x < lead ! k" if "k < n" for k
    using part that by blast
  have high: "x < lead ! k" if "n \<le> k" "k < length lead" for k
    using part that by blast
  show le: "n \<le> length lead"
    by (simp add: n_def Search_le)
  show "\<forall>y \<in> set (take n lead). y \<le> x"
  proof
    fix y assume "y \<in> set (take n lead)"
    then obtain k where "k < n" "k < length lead" "y = lead ! k"
      by (auto simp add: in_set_conv_nth)
    with low [of k] show "y \<le> x"
      by simp
  qed
  show "\<forall>y \<in> set (drop n lead). x < y"
  proof
    fix y assume "y \<in> set (drop n lead)"
    then obtain k where "k < length lead - n" "y = lead ! (n + k)"
      using le by (auto simp add: in_set_conv_nth)
    then have "n + k < length lead" "y = lead ! (n + k)"
      by simp_all
    with high [of "n + k"] show "x < y"
      by simp
  qed
qed

lemma merge_loop_sorted:
  assumes "sorted_wrt (<) lead" "sorted_wrt (<) follow" "follow \<noteq> []" "set lead \<inter> set follow = {}"
  shows "\<exists>xs. merge_loop merged lead follow = Ret (merged @ xs)
           \<and> sorted_wrt (<) xs \<and> set xs = set lead \<union> set follow
           \<and> length xs = length lead + length follow"
  using assms
proof (induction merged lead follow rule: merge_loop.induct)
  case (1 merged lead follow)
  show ?case
  proof (cases "lead = []")
    case True
    then have "merge_loop merged lead follow = Ret (merged @ follow)"
      by (subst merge_loop.simps) simp
    with True "1.prems" show ?thesis
      by simp
  next
    case False
    from "1.prems"(3) obtain f0 fs where follow: "follow = f0 # fs"
      by (cases follow) auto
    define n where "n = Search (length lead) (\<lambda>i. lead ! i > f0)"
    note S = Search_sorted [OF "1.prems"(1), of f0, folded n_def]
    have f0_min: "\<forall>y \<in> set follow. f0 \<le> y"
      using "1.prems"(2) follow by auto
    have below: "\<forall>y \<in> set (take n lead). y < f0"
    proof
      fix y assume y: "y \<in> set (take n lead)"
      then have "y \<in> set lead" by (rule in_set_takeD)
      with "1.prems"(4) follow have "y \<noteq> f0" by auto
      with S(2) y show "y < f0" by auto
    qed
    have split: "lead = take n lead @ drop n lead"
      by simp
    have sorted_parts: "sorted_wrt (<) (take n lead)" "sorted_wrt (<) (drop n lead)"
      "\<forall>y \<in> set (take n lead). \<forall>z \<in> set (drop n lead). y < z"
      using "1.prems"(1) sorted_wrt_append [of "(<)" "take n lead" "drop n lead"] by simp_all
    show ?thesis
    proof (cases "n \<ge> length lead")
      case True
      then have "merge_loop merged lead follow = Ret (merged @ lead @ follow)"
        using False follow by (subst merge_loop.simps) (simp add: n_def Let_def)
      moreover have "sorted_wrt (<) (lead @ follow)"
        using "1.prems"(1,2) below True f0_min by (fastforce simp add: sorted_wrt_append)
      ultimately show ?thesis
        by auto
    next
      case less: False
      then have eq: "merge_loop merged lead follow = merge_loop (merged @ take n lead) follow (drop n lead)"
        using False follow by (subst merge_loop.simps) (simp add: n_def Let_def)
      have "\<exists>xs. merge_loop (merged @ take n lead) follow (drop n lead) = Ret ((merged @ take n lead) @ xs)
           \<and> sorted_wrt (<) xs \<and> set xs = set follow \<union> set (drop n lead)
           \<and> length xs = length follow + length (drop n lead)"
      proof (rule "1.IH" [OF _ follow n_def refl less])
        show "0 < length lead" using False by simp
        show "sorted_wrt (<) follow" by (rule "1.prems"(2))
        show "sorted_wrt (<) (drop n lead)" by (rule sorted_parts(2))
        show "drop n lead \<noteq> []" using less by simp
        show "set follow \<inter> set (drop n lead) = {}"
          using "1.prems"(4) by (auto dest: in_set_dropD)
      qed
      then obtain xs where xs: "merge_loop (merged @ take n lead) follow (drop n lead) = Ret ((merged @ take n lead) @ xs)"
        "sorted_wrt (<) xs" "set xs = set follow \<union> set (drop n lead)"
        "length xs = length follow + length (drop n lead)"
        by blast
      have "sorted_wrt (<) (take n lead @ xs)"
        using sorted_parts xs(2,3) below f0_min by (fastforce simp add: sorted_wrt_append)
      moreover have "set lead = set (take n lead) \<union> set (drop n lead)"
        by (metis append_take_drop_id set_append)
      then have "set (take n lead @ xs) = set lead \<union> set follow"
        using xs(3) by auto
      moreover have "length (take n lead @ xs) = length lead + length follow"
        using xs(4) less by simp
      ultimately show ?thesis
        using eq xs(1) by (intro exI [of _ "take n lead @ xs"]) simp
    qed
  qed
qed

text \<open>
  Claim C4.  On two ascending, duplicate-free (strictly increasing) and disjoint
  sequences \<open>merge\<close> returns, without a panic, a strictly increasing sequence whose
  elements are those of \<open>a\<close> or \<open>b\<close> and whose length is \<open>len(a) + len(b)\<close>.  For
  every \<open>a\<close> and \<open>b\<close>, \<open>merge(a, [])\<close> is \<open>a\<close> and \<open>merge([], b)\<close> is \<open>b\<close>: the
  other input itself is returned.
\<close>

theorem merge_sorted_union:
  "(sorted_wrt (<) a \<and> sorted_wrt (<) b \<and> set a \<inter> set b = {} \<longrightarrow>
      (\<exists>xs. merge a b = Ret xs \<and> sorted_wrt (<) xs \<and> set xs = set a \<union> set b
            \<and> length xs = length a + length b))
   \<and> merge a [] = Ret a \<and> merge [] b = Ret b"
proof (intro conjI impI)
  show "merge a [] = Ret a"
    by (cases a) (simp_all add: merge_def)
  show "merge [] b = Ret b"
    by (simp add: merge_def)
  assume asm: "sorted_wrt (<) a \<and> sorted_wrt (<) b \<and> set a \<inter> set b = {}"
  show "\<exists>xs. merge a b = Ret xs \<and> sorted_wrt (<) xs \<and> set xs = set a \<union> set b
            \<and> length xs = length a + length b"
  proof (cases "a = [] \<or> b = []")
    case True
    with asm show ?thesis
      by (auto simp add: merge_def)
  next
    case False
    define lead where "lead = (if b ! 0 < a ! 0 then b else a)"
    define follow where "follow = (if b ! 0 < a ! 0 then a else b)"
    have lf: "sorted_wrt (<) lead" "sorted_wrt (<) follow" "follow \<noteq> []"
      "set lead \<inter> set follow = {}" "set lead \<union> set follow = set a \<union> set b"
      "length lead + length follow = length a + length b"
      using asm False by (auto simp add: lead_def follow_def)
    from merge_loop_sorted [OF lf(1-4), of "[]"] obtain xs where
      xs: "merge_loop [] lead follow = Ret xs" "sorted_wrt (<) xs"
        "set xs = set lead \<union> set follow" "length xs = length lead + length follow"
      by auto
    have "mergepgids (replicate (length a + length b) 0) a b
          = Ret (overlay (replicate (length a + length b) 0) xs)"
      using False xs(1) by (auto simp add: mergepgids_def lead_def follow_def)
    also have "overlay (replicate (length a + length b) 0) xs = xs"
      using xs(4) lf(6) by (simp add: overlay_def)
    finally have "merge a b = Ret xs"
      using False by (simp add: merge_def)
    with xs lf show ?thesis
      by simp
  qed
qed

theorem merge_sorted_union_witness:
  "sorted_wrt (<) [1, 4, 9 :: pgid] \<and> sorted_wrt (<) [2, 3, 10, 11 :: pgid]
   \<and> set [1, 4, 9 :: pgid] \<inter> set [2, 3, 10, 11] = {}
   \<and> merge [1, 4, 9] [2, 3, 10, 11] = Ret [1, 2, 3, 4, 9, 10, 11]"
proof -
  have e: "merge [1, 4, 9] [2, 3, 10, 11] = Ret [1, 2, 3, 4, 9, 10, 11]"
    by code_simp
  have h: "sorted_wrt (<) [1, 4, 9 :: pgid] \<and> sorted_wrt (<) [2, 3, 10, 11 :: pgid]
      \<and> set [1, 4, 9 :: pgid] \<inter> set [2, 3, 10, 11] = {}"
    by simp
  from merge_sorted_union [of "[1, 4, 9]" "[2, 3, 10, 11]"] h e show ?thesis
    by simp
qed

subsection \<open>Transactions\<close>

text \<open>
  Claim C8.  \<open>init\<close> gives the transaction its own copy of the database's meta
  record.  A writable transaction also gets an empty page cache, and in its copy
  \<open>txid\<close> and \<open>flid\<close> are each one more than in the database's record (64-bit
  addition): the new \<open>txid\<close> is strictly greater than the committed one, as long as
  the committed one is not the largest 64-bit value, and the lowest bit of \<open>flid\<close>
  flips.  A read-only transaction keeps the record as copied and has no page cache.
\<close>

theorem init_snapshot:
  "meta (init d t) =
     Some (if writable t
           then (meta_db d)\<lparr>txid := txid (meta_db d) + 1, flid := flid (meta_db d) + 1\<rparr>
           else meta_db d)
   \<and> pages (init d t) = (if writable t then Some [] else None)
   \<and> root_tx (init d t) = Some (root_meta (meta_db d))
   \<and> db (init d t) = Some DBRef
   \<and> writable (init d t) = writable t
   \<and> (writable t \<and> txid (meta_db d) \<noteq> - 1 \<longrightarrow>
        (\<exists>m. meta (init d t) = Some m \<and> txid (meta_db d) < txid m
              \<and> unat (txid m) = unat (txid (meta_db d)) + 1))
   \<and> (writable t \<longrightarrow>
        (\<exists>m. meta (init d t) = Some m \<and> (bit (flid m) 0 \<longleftrightarrow> \<not> bit (flid (meta_db d)) 0)))"
proof -
  have less: "x < x + 1" if "x \<noteq> - 1" for x :: "64 word"
    using that inc_less_eq_self_iff_eq [of x] by (simp add: not_le)
  have un: "unat (x + 1) = unat x + 1" if "x \<noteq> - 1" for x :: "64 word"
  proof -
    from that have "1 + x \<noteq> 0"
      using max_word_wrap [of x] by (auto simp add: add.commute)
    then show ?thesis
      using unatSuc [of x] by (simp add: add.commute)
  qed
  have par: "bit (x + 1) 0 \<longleftrightarrow> \<not> bit x 0" for x :: "64 word"
    by (simp add: bit_0)
  show ?thesis
    by (simp add: init_def Let_def less un par)
qed


theorem init_snapshot_witness:
  "writable tx0 \<and> txid (meta_db db0) \<noteq> - 1
   \<and> meta (init db0 tx0) = Some \<lparr>root_meta = \<lparr>root = 3\<rparr>, pgid = 8, txid = 42, flid = 7\<rparr>
   \<and> pages (init db0 tx0) = Some []
   \<and> \<not> writable (tx0\<lparr>writable := False\<rparr>)
   \<and> meta (init db0 (tx0\<lparr>writable := False\<rparr>)) = Some meta0
   \<and> pages (init db0 (tx0\<lparr>writable := False\<rparr>)) = None"
  using init_snapshot [of db0 tx0] init_snapshot [of db0 "tx0\<lparr>writable := False\<rparr>"]
  by (simp add: tx0_def db0_def meta0_def)

text \<open>
  Claim C7.  \<open>Page(id)\<close> returns the "closed" error on a closed transaction;
  otherwise \<open>(nil, nil)\<close> when \<open>id\<close>, as a page id, is at or above the transaction's
  high-water mark (the code compares \<open>pgid(id)\<close>, so a negative \<open>id\<close> counts as above
  it); otherwise "free pages not loaded" when the database has no freelist; otherwise
  a \<open>PageInfo\<close> with the id, the element count, the overflow count, and the type
  \<open>free\<close> if the freelist reports the page freed, else the page's \<open>typ()\<close>.
\<close>

theorem Page_cases:
  "(db (tx w) = None \<longrightarrow> Page w i = Ret (None, Some ErrTxClosed))
   \<and> (db (tx w) \<noteq> None \<and> meta (tx w) = Some m \<and> pgid m \<le> i \<longrightarrow> Page w i = Ret (None, None))
   \<and> (db (tx w) \<noteq> None \<and> meta (tx w) = Some m \<and> i < pgid m \<and> freelist (dbw w) = None \<longrightarrow>
        Page w i = Ret (None, Some ErrFreePagesNotLoaded))
   \<and> (db (tx w) \<noteq> None \<and> meta (tx w) = Some m \<and> i < pgid m \<and> freelist (dbw w) = Some fl \<longrightarrow>
        Page w i =
          Ret (Some \<lparr>ID = i,
                     Type = (if freed fl i then ''free'' else typ_pg (page_db (dbw w) i)),
                     Count = ucast (count (page_db (dbw w) i)),
                     OverflowCount = ucast (overflow (page_db (dbw w) i))\<rparr>, None))"
  by (auto simp add: Page_def deref_def Let_def)

theorem Page_cases_witness:
  "Page (world0 True\<lparr>tx := tx0\<rparr>) 0 = Ret (None, Some ErrTxClosed)
   \<and> Page (world0 True) 8 = Ret (None, None)
   \<and> Page (world0 False) (- 1) = Ret (None, None)
   \<and> Page (world0 False\<lparr>dbw := db0\<lparr>freelist := None\<rparr>\<rparr>) 0 = Ret (None, Some ErrFreePagesNotLoaded)
   \<and> Page (world0 False) 0 = Ret (Some \<lparr>ID = 0, Type = ''meta'', Count = 2, OverflowCount = 0\<rparr>, None)
   \<and> Page (world0 True) 5 = Ret (Some \<lparr>ID = 5, Type = ''free'', Count = 2, OverflowCount = 0\<rparr>, None)
   \<and> Page (world0 True) 7 = Ret (Some \<lparr>ID = 7, Type = ''leaf'', Count = 2, OverflowCount = 0\<rparr>, None)"
  using Page_cases [where w = "world0 True\<lparr>tx := tx0\<rparr>" and i = 0]
    Page_cases [where w = "world0 True" and i = 8
      and m = "\<lparr>root_meta = \<lparr>root = 3\<rparr>, pgid = 8, txid = 42, flid = 7\<rparr>"]
    Page_cases [where w = "world0 False" and m = meta0 and i = "- 1"]
    Page_cases [where w = "world0 False\<lparr>dbw := db0\<lparr>freelist := None\<rparr>\<rparr>" and m = meta0 and i = 0]
    Page_cases [where w = "world0 False" and m = meta0 and i = 0 and fl = freelist0]
    Page_cases [where w = "world0 True" and i = 5 and fl = freelist0
      and m = "\<lparr>root_meta = \<lparr>root = 3\<rparr>, pgid = 8, txid = 42, flid = 7\<rparr>"]
    Page_cases [where w = "world0 True" and i = 7 and fl = freelist0
      and m = "\<lparr>root_meta = \<lparr>root = 3\<rparr>, pgid = 8, txid = 42, flid = 7\<rparr>"]
  by (simp add: world0_def tx0_def db0_def meta0_def freelist0_def init_def typ_pg_def
      branchPageFlag_def leafPageFlag_def metaPageFlag_def freelistPageFlag_def)

text \<open>
  Claim C5.  \<open>Commit\<close> on a managed transaction panics in its assertion.  On a
  transaction that is not managed it returns "transaction closed" when the
  transaction is closed, read-only or not, and "not writable" when it is open and
  read-only; in both cases the state is returned as it was, with nothing added to the
  trace of calls.
\<close>

theorem Commit_guards:
  "(managed (tx w) \<longrightarrow>
      Commit cf en w = Some (Panic ''assertion failed: managed tx commit not allowed''))
   \<and> (\<not> managed (tx w) \<and> db (tx w) = None \<longrightarrow> Commit cf en w = Some (Ret (Some ErrTxClosed, w)))
   \<and> (\<not> managed (tx w) \<and> db (tx w) \<noteq> None \<and> \<not> writable (tx w) \<longrightarrow>
        Commit cf en w = Some (Ret (Some ErrTxNotWritable, w)))"
  by (simp add: Commit_def assert_go_def)

theorem Commit_guards_witness:
  "Commit config0 env0 (world0 True\<lparr>tx := (tx (world0 True))\<lparr>managed := True\<rparr>\<rparr>)
     = Some (Panic ''assertion failed: managed tx commit not allowed'')
   \<and> Commit config0 env0 (world0 True\<lparr>tx := tx0\<rparr>)
       = Some (Ret (Some ErrTxClosed, world0 True\<lparr>tx := tx0\<rparr>))
   \<and> Commit config0 env0 (world0 True\<lparr>tx := tx0\<lparr>writable := False\<rparr>\<rparr>)
       = Some (Ret (Some ErrTxClosed, world0 True\<lparr>tx := tx0\<lparr>writable := False\<rparr>\<rparr>))
   \<and> Commit config0 env0 (world0 False) = Some (Ret (Some ErrTxNotWritable, world0 False))"
  using Commit_guards [where w = "world0 True\<lparr>tx := (tx (world0 True))\<lparr>managed := True\<rparr>\<rparr>"
      and cf = config0 and en = env0]
    Commit_guards [where w = "world0 True\<lparr>tx := tx0\<rparr>" and cf = config0 and en = env0]
    Commit_guards [where w = "world0 True\<lparr>tx := tx0\<lparr>writable := False\<rparr>\<rparr>"
      and cf = config0 and en = env0]
    Commit_guards [where w = "world0 False" and cf = config0 and en = env0]
  by (simp add: world0_def tx0_def init_def)

lemma close_Panic: "close w = Panic m \<Longrightarrow> m = ''nil pointer dereference''"
  by (auto simp add: close_def deref_def Let_def split: option.splits if_splits)

lemma rollback_Panic: "rollback en w = Panic m \<Longrightarrow> m = ''nil pointer dereference''"
  by (auto simp add: rollback_def deref_def Let_def dest: close_Panic split: option.splits if_splits)

lemma rollback_with_Panic: "rollback_with en e w = Panic m \<Longrightarrow> m = ''nil pointer dereference''"
  by (auto simp add: rollback_with_def dest: rollback_Panic split: result.splits)

lemma close_Ret:
  "freelist (dbw w) \<noteq> None \<Longrightarrow> \<exists>w'. close w = Ret w'"
  by (auto simp add: close_def deref_def Let_def log_ev_def split: option.splits)

lemma rollback_Ret:
  "freelist (dbw w) \<noteq> None \<Longrightarrow> meta (tx w) \<noteq> None \<Longrightarrow> \<exists>w'. rollback en w = Ret w'"
  by (auto simp add: rollback_def deref_def Let_def log_ev_def intro!: close_Ret split: option.splits)

text \<open>
  Claim C3, amended.  \<open>commitFreelist\<close> panics in its assertion exactly when the
  freelist size is at least \<open>freelistRegionSize - pageSize\<close>.  When the size is
  strictly below that bound (and the page size is positive), the call returns: the
  freelist page gets the id \<open>2 + (flid % 2) * freelistRegionSize / pageSize\<close> and the
  overflow count \<open>pages - 1\<close>, it is handed to the freelist's \<open>write\<close>, and when that
  succeeds the page is stored in the transaction's page cache under its id.
\<close>

theorem commitFreelist_budget:
  "(db (tx w) \<noteq> None \<and> freelist (dbw w) = Some fl \<longrightarrow>
      (commitFreelist cf en w = Panic ''assertion failed: fatal: freelist too large''
         \<longleftrightarrow> freelistRegionSize cf - pageSize (dbw w) \<le> size_fl fl))
   \<and> (db (tx w) \<noteq> None \<and> freelist (dbw w) = Some fl \<and> meta (tx w) = Some m \<and> pages (tx w) = Some al
        \<and> 0 < pageSize (dbw w) \<and> pageSize (dbw w) < 2 ^ 64
        \<and> size_fl fl < freelistRegionSize cf - pageSize (dbw w) \<longrightarrow>
        (\<exists>er p' w'. commitFreelist cf en w = Ret (er, w')
           \<and> freelist_write_ext en fl
                (zero_page\<lparr>id_pg := 2 + ((flid m mod 2) * word_of_int (freelistRegionSize cf))
                                        div word_of_int (pageSize (dbw w)),
                            overflow := word_of_int (if size_fl fl < pageSize (dbw w) then 1
                                                     else size_fl fl div pageSize (dbw w) + 1) - 1\<rparr>)
               = (er, p')
           \<and> (er = None \<longrightarrow> pages (tx w') = Some (AList.update (id_pg p') p' al))))"
proof (intro conjI impI)
  assume a: "db (tx w) \<noteq> None \<and> freelist (dbw w) = Some fl"
  show "commitFreelist cf en w = Panic ''assertion failed: fatal: freelist too large''
         \<longleftrightarrow> freelistRegionSize cf - pageSize (dbw w) \<le> size_fl fl"
  proof (cases "size_fl fl < freelistRegionSize cf - pageSize (dbw w)")
    case False
    with a show ?thesis
      by (auto simp add: commitFreelist_def deref_def assert_go_def log_ev_def)
  next
    case True
    have "commitFreelist cf en w \<noteq> Panic ''assertion failed: fatal: freelist too large''"
    proof
      assume "commitFreelist cf en w = Panic ''assertion failed: fatal: freelist too large''"
      with a True show False
        by (auto simp add: commitFreelist_def deref_def assert_go_def log_ev_def Let_def
            split: option.splits if_splits prod.splits dest: rollback_with_Panic)
    qed
    with True show ?thesis
      by simp
  qed
next
  assume a: "db (tx w) \<noteq> None \<and> freelist (dbw w) = Some fl \<and> meta (tx w) = Some m
      \<and> pages (tx w) = Some al \<and> 0 < pageSize (dbw w) \<and> pageSize (dbw w) < 2 ^ 64
      \<and> size_fl fl < freelistRegionSize cf - pageSize (dbw w)"
  let ?ps = "pageSize (dbw w)"
  let ?n = "if size_fl fl < ?ps then 1 else size_fl fl div ?ps + 1"
  let ?p = "zero_page\<lparr>id_pg := 2 + ((flid m mod 2) * word_of_int (freelistRegionSize cf))
                                        div word_of_int ?ps,
                         overflow := word_of_int ?n - 1\<rparr>"
  obtain er p' where fw: "freelist_write_ext en fl ?p = (er, p')"
    by (cases "freelist_write_ext en fl ?p")
  have nz: "(word_of_int ?ps :: pgid) \<noteq> 0"
    using a zdvd_not_zless [of "pageSize (dbw w)" "2 ^ 64"] by (simp add: word_of_int_eq_0_iff)
  have q: "quo (size_fl fl) ?ps = size_fl fl div ?ps" if "\<not> size_fl fl < ?ps"
    using that a by (simp add: quo_def sgn_if)
  have pos: "0 < (size_fl fl div ?ps + 1) * ?ps" if "\<not> size_fl fl < ?ps"
    using that a by (simp add: pos_imp_zdiv_nonneg_iff)
  show "\<exists>er p' w'. commitFreelist cf en w = Ret (er, w')
           \<and> freelist_write_ext en fl ?p = (er, p')
           \<and> (er = None \<longrightarrow> pages (tx w') = Some (AList.update (id_pg p') p' al))"
  proof (cases er)
    case None
    with a fw nz q pos show ?thesis
      by (auto simp add: commitFreelist_def deref_def assert_go_def log_ev_def Let_def)
  next
    case (Some e)
    let ?w2 = "log_ev [FreelistWrite (id_pg ?p)]
                 (if size_fl fl < ?ps then log_ev [PoolGet] (log_ev [CallCommitFreelist] w)
                  else log_ev [CallCommitFreelist] w)"
    have "\<exists>w'. rollback en ?w2 = Ret w'"
      using a by (intro rollback_Ret) (simp_all add: log_ev_def)
    then obtain w' where "rollback_with en e ?w2 = Ret (Some e, w')"
      by (auto simp add: rollback_with_def)
    with a fw nz q pos Some show ?thesis
      by (auto simp add: commitFreelist_def deref_def assert_go_def log_ev_def Let_def)
  qed
qed


theorem commitFreelist_budget_witness:
  "db (tx (world0 True)) \<noteq> None \<and> freelist (dbw (world0 True)) = Some freelist0
   \<and> meta (tx (world0 True)) = Some \<lparr>root_meta = \<lparr>root = 3\<rparr>, pgid = 8, txid = 42, flid = 7\<rparr>
   \<and> pages (tx (world0 True)) = Some []
   \<and> 0 < pageSize (dbw (world0 True)) \<and> pageSize (dbw (world0 True)) < 2 ^ 64
   \<and> size_fl freelist0 < freelistRegionSize config0 - pageSize (dbw (world0 True))
   \<and> commitFreelist config0 env0 (world0 True)
         \<noteq> Panic ''assertion failed: fatal: freelist too large''
   \<and> (\<exists>w'. commitFreelist config0 env0 (world0 True) = Ret (None, w')
          \<and> pages (tx w') = Some [(18, \<lparr>id_pg = 18, flags = 0x10, count = 1, overflow = 0\<rparr>)])"
  using commitFreelist_budget [where w = "world0 True" and cf = config0 and en = env0
      and fl = freelist0 and al = "[]"
      and m = "\<lparr>root_meta = \<lparr>root = 3\<rparr>, pgid = 8, txid = 42, flid = 7\<rparr>"]
  by (auto simp add: world0_def tx0_def db0_def meta0_def freelist0_def init_def config0_def env0_def
      zero_page_def freelistPageFlag_def)

text \<open>
  Claim C3, as stated, fails at the boundary: a freelist of exactly
  \<open>freelistRegionSize - pageSize\<close> bytes (here 65536 - 4096 = 61440) does not exceed
  the bound, and the assertion panics all the same, since it demands a size strictly
  below the bound.
\<close>

theorem commitFreelist_boundary_counterexample:
  "\<not> freelistRegionSize config0 - pageSize db0 < 61440
   \<and> commitFreelist config0 env0
         (world0 True\<lparr>dbw := db0\<lparr>freelist := Some (freelist0\<lparr>size_fl := 61440\<rparr>)\<rparr>\<rparr>)
       = Panic ''assertion failed: fatal: freelist too large''"
  by (simp add: commitFreelist_def deref_def assert_go_def log_ev_def world0_def tx0_def db0_def
      init_def config0_def freelist0_def)

subsection \<open>Writing dirty pages\<close>

lemma u64_id: "0 \<le> x \<Longrightarrow> x < 2 ^ 64 \<Longrightarrow> u64 x = x"
  by (simp add: u64_def)

lemma i64_id: "- (2 ^ 63) \<le> x \<Longrightarrow> x < 2 ^ 63 \<Longrightarrow> i64 x = x"
  by (simp add: i64_def)

lemma write_chunks_ok:
  assumes ok: "\<And>tr b off. writeAt_ext en tr b off = None"
    and cap: "0 < cap" "cap < 2 ^ 63" "maxAllocSize cf - 1 = cap"
  shows "0 \<le> rem \<Longrightarrow> 0 \<le> written \<Longrightarrow> written + rem < 2 ^ 64
      \<Longrightarrow> - (2 ^ 63) \<le> offset \<Longrightarrow> offset + rem < 2 ^ 63
      \<Longrightarrow> write_chunks cf en i rem offset written tr
          = Some (None, tr @ map (\<lambda>(wr, sz). WriteAt (PageBytes i wr sz) (offset - written + wr))
                               (chunk_list cap rem written))"
proof (induction "nat rem" arbitrary: rem written offset tr rule: less_induct)
  case less
  let ?f = "\<lambda>off wr0. (\<lambda>(wr, sz). WriteAt (PageBytes i wr sz) (off - wr0 + wr))"
  show ?case
  proof (cases "rem > cap")
    case False
    then have cl: "chunk_list cap rem written = [(written, rem)]"
      by (subst chunk_list.simps) simp
    from False have "write_chunks cf en i rem offset written tr
        = Some (None, tr @ [WriteAt (PageBytes i written rem) offset])"
      by (subst write_chunks.simps) (simp add: ok cap u64_def)
    then show ?thesis
      by (simp add: cl)
  next
    case True
    with cap have cl: "chunk_list cap rem written = (written, cap) # chunk_list cap (rem - cap) (written + cap)"
      by (subst chunk_list.simps) simp
    have r: "u64 (rem - cap) = rem - cap" "rem - cap \<noteq> 0"
      using True less.prems cap by (simp_all add: u64_id)
    have w: "u64 (written + u64 cap) = written + cap"
      using True less.prems cap by (simp add: u64_id)
    have o: "i64 (offset + i64 cap) = offset + cap"
      using True less.prems cap by (simp add: i64_id)
    have "write_chunks cf en i rem offset written tr
        = write_chunks cf en i (rem - cap) (offset + cap) (written + cap)
            (tr @ [WriteAt (PageBytes i written cap) offset])"
      using True by (subst write_chunks.simps) (simp add: ok cap r w o)
    also have "\<dots> = Some (None, (tr @ [WriteAt (PageBytes i written cap) offset])
        @ map (?f (offset + cap) (written + cap)) (chunk_list cap (rem - cap) (written + cap)))"
      using True less.prems cap by (intro less.hyps) simp_all
    finally show ?thesis
      by (simp add: cl)
  qed
qed

lemma page_writes_append: "page_writes (xs @ ys) = page_writes xs @ page_writes ys"
  by (induction xs rule: page_writes.induct) simp_all

lemma page_writes_chunks:
  "page_writes (map (\<lambda>(wr, sz). WriteAt (PageBytes i wr sz) (f wr)) cs)
     = map (\<lambda>(wr, sz). \<lparr>pw_page = i, pw_start = wr, pw_size = sz, pw_offset = f wr\<rparr>) cs"
  by (induction cs) auto

lemma page_writes_PoolPut: "page_writes (map (\<lambda>p. PoolPut (g p)) xs) = []"
  by (induction xs) simp_all

lemma chunk_list_props:
  assumes "0 < cap" "0 \<le> rem"
  shows "chunk_list cap rem wr \<noteq> []"
    and "fst (hd (chunk_list cap rem wr)) = wr"
    and "\<forall>c \<in> set (chunk_list cap rem wr). 0 \<le> snd c \<and> snd c \<le> cap \<and> wr \<le> fst c"
    and "sum_list (map snd (chunk_list cap rem wr)) = rem"
    and "sorted_wrt (<) (map fst (chunk_list cap rem wr))"
    and "\<forall>k < length (chunk_list cap rem wr).
           fst (chunk_list cap rem wr ! k) = wr + sum_list (map snd (take k (chunk_list cap rem wr)))"
  using assms
proof (induction cap rem wr rule: chunk_list.induct)
  case (1 cap rem wr)
  {
    case 1 show ?case by (subst chunk_list.simps) (simp add: Let_def)
  next
    case 2 show ?case by (subst chunk_list.simps) (simp add: Let_def)
  next
    case 3
    show ?case
    proof (cases "rem > cap")
      case False
      then have "chunk_list cap rem wr = [(wr, rem)]"
        by (subst chunk_list.simps) simp
      with 3 False show ?thesis by simp
    next
      case True
      with 3 have cl: "chunk_list cap rem wr = (wr, cap) # chunk_list cap (rem - cap) (wr + cap)"
        by (subst chunk_list.simps) simp
      from "1.IH"(3) [OF refl] True 3
      have "\<forall>c \<in> set (chunk_list cap (rem - cap) (wr + cap)). 0 \<le> snd c \<and> snd c \<le> cap \<and> wr + cap \<le> fst c"
        by simp
      with 3 show ?thesis
        unfolding cl by auto
    qed
  next
    case 4
    show ?case
    proof (cases "rem > cap")
      case False
      then have "chunk_list cap rem wr = [(wr, rem)]"
        by (subst chunk_list.simps) simp
      with 4 False show ?thesis by simp
    next
      case True
      with 4 have cl: "chunk_list cap rem wr = (wr, cap) # chunk_list cap (rem - cap) (wr + cap)"
        by (subst chunk_list.simps) simp
      from "1.IH"(4) [OF refl] True 4
      have "sum_list (map snd (chunk_list cap (rem - cap) (wr + cap))) = rem - cap"
        by simp
      then show ?thesis
        unfolding cl by simp
    qed
  next
    case 5
    show ?case
    proof (cases "rem > cap")
      case False
      then have "chunk_list cap rem wr = [(wr, rem)]"
        by (subst chunk_list.simps) simp
      with 5 False show ?thesis by simp
    next
      case True
      with 5 have cl: "chunk_list cap rem wr = (wr, cap) # chunk_list cap (rem - cap) (wr + cap)"
        by (subst chunk_list.simps) simp
      from "1.IH"(5) [OF refl] "1.IH"(3) [OF refl] True 5
      have "sorted_wrt (<) (map fst (chunk_list cap (rem - cap) (wr + cap)))"
        and "\<forall>c \<in> set (chunk_list cap (rem - cap) (wr + cap)). wr + cap \<le> fst c"
        by simp_all
      with 5 show ?thesis
        unfolding cl by auto
    qed
  next
    case 6
    show ?case
    proof (cases "rem > cap")
      case False
      then have "chunk_list cap rem wr = [(wr, rem)]"
        by (subst chunk_list.simps) simp
      with 6 False show ?thesis by simp
    next
      case True
      with 6 have cl: "chunk_list cap rem wr = (wr, cap) # chunk_list cap (rem - cap) (wr + cap)"
        by (subst chunk_list.simps) simp
      from "1.IH"(6) [OF refl] True 6
      have ih: "\<forall>k < length (chunk_list cap (rem - cap) (wr + cap)).
           fst (chunk_list cap (rem - cap) (wr + cap) ! k)
             = wr + cap + sum_list (map snd (take k (chunk_list cap (rem - cap) (wr + cap))))"
        by simp
      show ?thesis
        unfolding cl
      proof (intro allI impI)
        fix k assume "k < length ((wr, cap) # chunk_list cap (rem - cap) (wr + cap))"
        with ih show "fst (((wr, cap) # chunk_list cap (rem - cap) (wr + cap)) ! k)
            = wr + sum_list (map snd (take k ((wr, cap) # chunk_list cap (rem - cap) (wr + cap))))"
          by (cases k) simp_all
      qed
    qed
  }
qed

lemma page_writes_chunk_events: "page_writes (chunk_events cap ps p) = page_chunks cap ps p"
  unfolding chunk_events_def page_chunks_def by (rule page_writes_chunks)

lemma page_writes_concat_chunk_events:
  "page_writes (concat (map (chunk_events cap ps) xs)) = concat (map (page_chunks cap ps) xs)"
  by (induction xs) (simp_all add: page_writes_append page_writes_chunk_events)

lemma write_pages_ok:
  assumes ok: "\<And>tr b off. writeAt_ext en tr b off = None"
    and cap: "0 < cap" "cap < 2 ^ 63" "maxAllocSize cf - 1 = cap"
    and ps: "0 < ps"
  shows "\<forall>p \<in> set xs. (uint (id_pg p) + uint (overflow p) + 1) * ps < 2 ^ 63
     \<Longrightarrow> write_pages cf en ps xs tr = Some (None, tr @ concat (map (chunk_events cap ps) xs))"
proof (induction xs arbitrary: tr)
  case Nil
  show ?case by simp
next
  case (Cons p xs)
  let ?i = "uint (id_pg p)" and ?o = "uint (overflow p)"
  from Cons.prems have b: "(?i + ?o + 1) * ps < 2 ^ 63"
    by simp
  have nn: "0 \<le> ?i" "0 \<le> ?o"
    by simp_all
  have le1: "ps \<le> (?i + ?o + 1) * ps"
    using ps nn by (simp add: mult_le_cancel_right1)
  have le2: "?i * ps \<le> (?i + ?o + 1) * ps" and le3: "(?o + 1) * ps \<le> (?i + ?o + 1) * ps"
    using ps nn by (simp_all add: mult_right_mono)
  have le4: "?i \<le> ?i * ps"
    using ps nn by (simp add: mult_le_cancel_left1)
  have nn2: "0 \<le> (?o + 1) * ps" "0 \<le> ?i * ps"
    using ps nn by simp_all
  have pw: "(2::int) ^ 63 < 2 ^ 64" "(0::int) \<le> 2 ^ 63"
    by simp_all
  have ups: "u64 ps = ps"
  proof (rule u64_id)
    show "0 \<le> ps" using ps by simp
    show "ps < 2 ^ 64" using le1 b pw by linarith
  qed
  have ips: "i64 ps = ps"
  proof (rule i64_id)
    show "- (2 ^ 63) \<le> ps" using ps pw by linarith
    show "ps < 2 ^ 63" using le1 b pw by linarith
  qed
  have ii: "i64 ?i = ?i"
  proof (rule i64_id)
    show "- (2 ^ 63) \<le> ?i" using nn pw by linarith
    show "?i < 2 ^ 63" using le4 le2 b pw by linarith
  qed
  have rem0: "u64 ((?o + 1) * u64 ps) = (?o + 1) * ps"
    unfolding ups
  proof (rule u64_id)
    show "0 \<le> (?o + 1) * ps" by (rule nn2)
    show "(?o + 1) * ps < 2 ^ 64" using le3 b pw by linarith
  qed
  have off0: "i64 (i64 ?i * i64 ps) = ?i * ps"
    unfolding ips ii
  proof (rule i64_id)
    show "- (2 ^ 63) \<le> ?i * ps" using nn2 pw by linarith
    show "?i * ps < 2 ^ 63" using le2 b pw by linarith
  qed
  have "write_chunks cf en (id_pg p) ((?o + 1) * ps) (?i * ps) 0 tr
      = Some (None, tr @ map (\<lambda>(wr, sz). WriteAt (PageBytes (id_pg p) wr sz) (?i * ps - 0 + wr))
                             (chunk_list cap ((?o + 1) * ps) 0))"
  proof (rule write_chunks_ok [OF ok cap])
    show "0 \<le> (?o + 1) * ps" by (rule nn2)
    show "(0::int) \<le> 0" by simp
    show "0 + (?o + 1) * ps < 2 ^ 64" using b le3 pw by linarith
    show "- (2 ^ 63) \<le> ?i * ps" using nn2 pw by linarith
    show "?i * ps + (?o + 1) * ps < 2 ^ 63" using b by (simp add: algebra_simps)
  qed
  then have "write_chunks cf en (id_pg p) ((?o + 1) * ps) (?i * ps) 0 tr
      = Some (None, tr @ chunk_events cap ps p)"
    by (simp add: chunk_events_def)
  moreover have "write_pages cf en ps xs (tr @ chunk_events cap ps p)
      = Some (None, (tr @ chunk_events cap ps p) @ concat (map (chunk_events cap ps) xs))"
    using Cons.prems by (intro Cons.IH) simp
  ultimately show ?case
    by (simp add: rem0 off0)
qed

lemma page_chunks_props:
  assumes "0 < cap" "0 < ps"
  shows "page_chunks cap ps p \<noteq> []"
    and "\<forall>c \<in> set (page_chunks cap ps p).
           pw_page c = id_pg p \<and> 0 \<le> pw_size c \<and> pw_size c \<le> cap
           \<and> pw_offset c = uint (id_pg p) * ps + pw_start c"
    and "pw_start (hd (page_chunks cap ps p)) = 0"
    and "sorted_wrt (<) (map pw_offset (page_chunks cap ps p))"
    and "sum_list (map pw_size (page_chunks cap ps p)) = (uint (overflow p) + 1) * ps"
    and "\<forall>k < length (page_chunks cap ps p).
           pw_start (page_chunks cap ps p ! k) = sum_list (map pw_size (take k (page_chunks cap ps p)))"
proof -
  let ?rem = "(uint (overflow p) + 1) * ps"
  let ?cl = "chunk_list cap ?rem 0"
  have rem: "0 \<le> ?rem"
    using assms by simp
  note P = chunk_list_props [OF assms(1) rem, of 0]
  have sz: "map pw_size (page_chunks cap ps p) = map snd ?cl"
    and st: "map pw_start (page_chunks cap ps p) = map fst ?cl"
    and off: "map pw_offset (page_chunks cap ps p) = map (\<lambda>c. uint (id_pg p) * ps + fst c) ?cl"
    by (simp_all add: page_chunks_def case_prod_unfold)
  show "page_chunks cap ps p \<noteq> []"
    using P(1) by (simp add: page_chunks_def)
  show "\<forall>c \<in> set (page_chunks cap ps p).
           pw_page c = id_pg p \<and> 0 \<le> pw_size c \<and> pw_size c \<le> cap
           \<and> pw_offset c = uint (id_pg p) * ps + pw_start c"
    using P(3) by (auto simp add: page_chunks_def)
  show "pw_start (hd (page_chunks cap ps p)) = 0"
    using P(1,2) by (simp add: page_chunks_def hd_map case_prod_unfold)
  show "sorted_wrt (<) (map pw_offset (page_chunks cap ps p))"
    using P(5) unfolding off by (simp add: sorted_wrt_map)
  show "sum_list (map pw_size (page_chunks cap ps p)) = ?rem"
    using P(4) unfolding sz by simp
  show "\<forall>k < length (page_chunks cap ps p).
           pw_start (page_chunks cap ps p ! k) = sum_list (map pw_size (take k (page_chunks cap ps p)))"
  proof (intro allI impI)
    fix k assume k: "k < length (page_chunks cap ps p)"
    then have k': "k < length ?cl"
      by (simp add: page_chunks_def)
    have "pw_start (page_chunks cap ps p ! k) = map pw_start (page_chunks cap ps p) ! k"
      using k by simp
    also have "\<dots> = fst (?cl ! k)"
      unfolding st using k' by simp
    also have "\<dots> = sum_list (map snd (take k ?cl))"
      using P(6) k' by simp
    also have "map snd (take k ?cl) = take k (map snd ?cl)"
      by (simp add: take_map)
    also have "take k (map snd ?cl) = map pw_size (take k (page_chunks cap ps p))"
      unfolding sz [symmetric] by (simp add: take_map)
    finally show "pw_start (page_chunks cap ps p ! k)
        = sum_list (map pw_size (take k (page_chunks cap ps p)))" .
  qed
qed

lemma concat_chunks_pages:
  assumes "0 < cap" "0 < ps"
  shows "map pw_page (concat (map (page_chunks cap ps) xs))
           = concat (map (\<lambda>p. replicate (length (page_chunks cap ps p)) (id_pg p)) xs)"
proof (induction xs)
  case Nil
  show ?case by simp
next
  case (Cons p xs)
  have "map pw_page (page_chunks cap ps p) = replicate (length (page_chunks cap ps p)) (id_pg p)"
    using page_chunks_props(2) [OF assms, of p] by (intro replicate_eqI) auto
  with Cons show ?case by simp
qed

lemma concat_chunks_sorted:
  assumes "0 < cap" "0 < ps" "sorted (map id_pg xs)"
  shows "sorted (map pw_page (concat (map (page_chunks cap ps) xs)))"
  unfolding concat_chunks_pages [OF assms(1,2)] using assms(3)
  by (induction xs) (auto simp add: sorted_append)

lemma concat_chunks_set:
  assumes "0 < cap" "0 < ps"
  shows "pw_page ` set (concat (map (page_chunks cap ps) xs)) = id_pg ` set xs"
proof -
  have "set (map pw_page (concat (map (page_chunks cap ps) xs))) = id_pg ` set xs"
    unfolding concat_chunks_pages [OF assms]
    using page_chunks_props(1) [OF assms] by (induction xs) auto
  then show ?thesis by simp
qed

lemma concat_chunks_filter:
  assumes "0 < cap" "0 < ps" "distinct (map id_pg xs)" "p \<in> set xs"
  shows "filter (\<lambda>c. pw_page c = id_pg p) (concat (map (page_chunks cap ps) xs))
           = page_chunks cap ps p"
  using assms(3,4)
proof (induction xs)
  case Nil
  then show ?case by simp
next
  case (Cons q xs)
  have own: "filter (\<lambda>c. pw_page c = id_pg r) (page_chunks cap ps r) = page_chunks cap ps r" for r
    using page_chunks_props(2) [OF assms(1,2), of r] by (intro filter_True) simp
  have other: "filter (\<lambda>c. pw_page c = id_pg p) (page_chunks cap ps r) = []" if "id_pg r \<noteq> id_pg p" for r
    using page_chunks_props(2) [OF assms(1,2), of r] that by (intro filter_False) simp
  show ?case
  proof (cases "p = q")
    case True
    from Cons.prems True have "\<forall>r \<in> set xs. id_pg r \<noteq> id_pg p"
      by (auto intro: rev_image_eqI)
    then have "filter (\<lambda>c. pw_page c = id_pg p) (concat (map (page_chunks cap ps) xs)) = []"
      by (induction xs) (simp_all add: other)
    with True show ?thesis
      by (simp add: own)
  next
    case False
    with Cons.prems have "p \<in> set xs" "id_pg q \<noteq> id_pg p" "distinct (map id_pg xs)"
      by auto
    with Cons.IH show ?thesis
      by (simp add: other)
  qed
qed

lemma distinct_map_sort_key:
  "distinct (map f (sort_key f ys)) \<longleftrightarrow> distinct (map f ys)"
  by (simp add: distinct_map)

lemma write_tx_trace:
  assumes "db (tx w) \<noteq> None" and al: "pages (tx w) = Some al"
    and ok: "\<And>tr b off. writeAt_ext en tr b off = None"
    and cap: "0 < cap" "cap < 2 ^ 63" "maxAllocSize cf - 1 = cap"
    and ps: "0 < pageSize (dbw w)"
    and bound: "\<forall>p \<in> snd ` set al. (uint (id_pg p) + uint (overflow p) + 1) * pageSize (dbw w) < 2 ^ 63"
  shows "\<exists>er w'. write_tx cf en w = Some (Ret (er, w'))
           \<and> page_writes (drop (length (trace w)) (trace w'))
               = concat (map (page_chunks cap (pageSize (dbw w))) (sort_key id_pg (map snd al)))"
proof -
  let ?P = "pageSize (dbw w)"
  let ?xs = "sort_key id_pg (map snd al)"
  let ?w1 = "(log_ev [CallWrite] w)\<lparr>tx := (tx (log_ev [CallWrite] w))\<lparr>pages := Some []\<rparr>\<rparr>"
  let ?tr = "(trace w @ [CallWrite]) @ concat (map (chunk_events cap ?P) ?xs)"
  have "\<forall>p \<in> set ?xs. (uint (id_pg p) + uint (overflow p) + 1) * ?P < 2 ^ 63"
    using bound by simp
  then have wp: "write_pages cf en ?P ?xs (trace w @ [CallWrite]) = Some (None, ?tr)"
    by (rule write_pages_ok [OF ok cap ps])
  have pw: "page_writes (drop (length (trace w)) (?tr @ tl))
      = concat (map (page_chunks cap ?P) ?xs)" if "page_writes tl = []" for tl
    using that by (simp add: page_writes_append page_writes_concat_chunk_events)
  have tl: "page_writes [Fdatasync] = []"
    "page_writes (Fdatasync # map (\<lambda>p. PoolPut (id_pg p)) ys) = []"
    "page_writes (map (\<lambda>p. PoolPut (id_pg p)) ys) = []" for ys
    by (simp_all add: page_writes_PoolPut)
  show ?thesis
  proof (cases "\<not> NoSync (dbw w) \<or> IgnoreNoSync cf")
    case False
    then show ?thesis
      using assms(1) al wp pw [OF tl(3)]
      by (auto simp add: write_tx_def log_ev_def Let_def)
  next
    case True
    then show ?thesis
      using assms(1) al wp pw [OF tl(1)] pw [OF tl(2)]
      by (cases "fdatasync_ext en ?tr") (auto simp add: write_tx_def log_ev_def Let_def)
  qed
qed

text \<open>
  Claim C9.  When every \<open>writeAt\<close> succeeds, \<open>write\<close> returns, and the writes of
  page bytes it issued go through the pages of the dirty-page cache in ascending
  page-id order, whatever the order of the cache: the page ids of the writes are
  sorted and are exactly the ids of the cached pages.  Every write has at most
  \<open>maxAllocSize - 1\<close> bytes and goes to file offset \<open>id * pageSize\<close> plus the number of
  bytes of the page written before it.  For each page the writes start at offset
  \<open>id * pageSize\<close>, their offsets increase strictly, each starts where the previous
  one ended, and their sizes add up to \<open>(overflow + 1) * pageSize\<close>.  The page ids in
  the cache are distinct, \<open>maxAllocSize\<close> is between 2 and \<open>2^63\<close>, the page size is
  positive and page offsets fit in an \<open>int64\<close>.
\<close>

theorem write_tx_ascending_chunks:
  assumes "db (tx w) \<noteq> None" and "pages (tx w) = Some al"
    and "distinct (map (\<lambda>kp. id_pg (snd kp)) al)"
    and "\<And>tr b off. writeAt_ext en tr b off = None"
    and "1 < maxAllocSize cf" and "maxAllocSize cf \<le> 2 ^ 63"
    and "0 < pageSize (dbw w)"
    and "\<forall>p \<in> snd ` set al. (uint (id_pg p) + uint (overflow p) + 1) * pageSize (dbw w) < 2 ^ 63"
  shows "\<exists>er w' ws. write_tx cf en w = Some (Ret (er, w'))
      \<and> ws = page_writes (drop (length (trace w)) (trace w'))
      \<and> sorted (map pw_page ws)
      \<and> pw_page ` set ws = id_pg ` snd ` set al
      \<and> (\<forall>c \<in> set ws. 0 \<le> pw_size c \<and> pw_size c \<le> maxAllocSize cf - 1
            \<and> pw_offset c = uint (pw_page c) * pageSize (dbw w) + pw_start c)
      \<and> (\<forall>p \<in> snd ` set al.
            filter (\<lambda>c. pw_page c = id_pg p) ws \<noteq> []
          \<and> pw_offset (hd (filter (\<lambda>c. pw_page c = id_pg p) ws)) = uint (id_pg p) * pageSize (dbw w)
          \<and> sorted_wrt (<) (map pw_offset (filter (\<lambda>c. pw_page c = id_pg p) ws))
          \<and> sum_list (map pw_size (filter (\<lambda>c. pw_page c = id_pg p) ws))
              = (uint (overflow p) + 1) * pageSize (dbw w)
          \<and> (\<forall>k < length (filter (\<lambda>c. pw_page c = id_pg p) ws).
                pw_start (filter (\<lambda>c. pw_page c = id_pg p) ws ! k)
                  = sum_list (map pw_size (take k (filter (\<lambda>c. pw_page c = id_pg p) ws)))))"
proof -
  let ?P = "pageSize (dbw w)"
  let ?cap = "maxAllocSize cf - 1"
  let ?xs = "sort_key id_pg (map snd al)"
  let ?ws = "concat (map (page_chunks ?cap ?P) ?xs)"
  have cap: "0 < ?cap" "?cap < 2 ^ 63"
    using assms(5,6) by simp_all
  note ps = assms(7)
  from write_tx_trace [OF assms(1,2,4) cap refl ps assms(8)]
  obtain er w' where r: "write_tx cf en w = Some (Ret (er, w'))"
    and ws: "page_writes (drop (length (trace w)) (trace w')) = ?ws"
    by blast
  have "distinct (map id_pg (map snd al))"
    using assms(3) by (simp add: comp_def)
  then have d: "distinct (map id_pg ?xs)"
    by (simp only: distinct_map_sort_key)
  have s1: "sorted (map pw_page ?ws)"
    by (rule concat_chunks_sorted [OF cap(1) ps]) simp
  have s2: "pw_page ` set ?ws = id_pg ` snd ` set al"
    using concat_chunks_set [OF cap(1) ps, of ?xs] by simp
  have s3: "\<forall>c \<in> set ?ws. 0 \<le> pw_size c \<and> pw_size c \<le> ?cap
            \<and> pw_offset c = uint (pw_page c) * ?P + pw_start c"
    using page_chunks_props(2) [OF cap(1) ps] by fastforce
  have s4: "filter (\<lambda>c. pw_page c = id_pg p) ?ws \<noteq> []
          \<and> pw_offset (hd (filter (\<lambda>c. pw_page c = id_pg p) ?ws)) = uint (id_pg p) * ?P
          \<and> sorted_wrt (<) (map pw_offset (filter (\<lambda>c. pw_page c = id_pg p) ?ws))
          \<and> sum_list (map pw_size (filter (\<lambda>c. pw_page c = id_pg p) ?ws)) = (uint (overflow p) + 1) * ?P
          \<and> (\<forall>k < length (filter (\<lambda>c. pw_page c = id_pg p) ?ws).
                pw_start (filter (\<lambda>c. pw_page c = id_pg p) ?ws ! k)
                  = sum_list (map pw_size (take k (filter (\<lambda>c. pw_page c = id_pg p) ?ws))))"
    if "p \<in> snd ` set al" for p
  proof -
    from that have "p \<in> set ?xs"
      by simp
    then have f: "filter (\<lambda>c. pw_page c = id_pg p) ?ws = page_chunks ?cap ?P p"
      by (rule concat_chunks_filter [OF cap(1) ps d])
    note Q = page_chunks_props [OF cap(1) ps, of p]
    have "hd (page_chunks ?cap ?P p) \<in> set (page_chunks ?cap ?P p)"
      using Q(1) by simp
    with Q(2,3) have "pw_offset (hd (page_chunks ?cap ?P p)) = uint (id_pg p) * ?P"
      by simp
    with Q show ?thesis
      unfolding f by simp
  qed
  from s4 have s5: "\<forall>p \<in> snd ` set al.
            filter (\<lambda>c. pw_page c = id_pg p) ?ws \<noteq> []
          \<and> pw_offset (hd (filter (\<lambda>c. pw_page c = id_pg p) ?ws)) = uint (id_pg p) * ?P
          \<and> sorted_wrt (<) (map pw_offset (filter (\<lambda>c. pw_page c = id_pg p) ?ws))
          \<and> sum_list (map pw_size (filter (\<lambda>c. pw_page c = id_pg p) ?ws)) = (uint (overflow p) + 1) * ?P
          \<and> (\<forall>k < length (filter (\<lambda>c. pw_page c = id_pg p) ?ws).
                pw_start (filter (\<lambda>c. pw_page c = id_pg p) ?ws ! k)
                  = sum_list (map pw_size (take k (filter (\<lambda>c. pw_page c = id_pg p) ?ws))))"
    by blast
  show ?thesis
  proof (intro exI conjI)
    show "write_tx cf en w = Some (Ret (er, w'))" by (rule r)
    show "?ws = page_writes (drop (length (trace w)) (trace w'))" by (rule ws [symmetric])
    show "sorted (map pw_page ?ws)" by (rule s1)
    show "pw_page ` set ?ws = id_pg ` snd ` set al" by (rule s2)
    show "\<forall>c \<in> set ?ws. 0 \<le> pw_size c \<and> pw_size c \<le> ?cap
            \<and> pw_offset c = uint (pw_page c) * ?P + pw_start c" by (rule s3)
    show "\<forall>p \<in> snd ` set al.
            filter (\<lambda>c. pw_page c = id_pg p) ?ws \<noteq> []
          \<and> pw_offset (hd (filter (\<lambda>c. pw_page c = id_pg p) ?ws)) = uint (id_pg p) * ?P
          \<and> sorted_wrt (<) (map pw_offset (filter (\<lambda>c. pw_page c = id_pg p) ?ws))
          \<and> sum_list (map pw_size (filter (\<lambda>c. pw_page c = id_pg p) ?ws)) = (uint (overflow p) + 1) * ?P
          \<and> (\<forall>k < length (filter (\<lambda>c. pw_page c = id_pg p) ?ws).
                pw_start (filter (\<lambda>c. pw_page c = id_pg p) ?ws ! k)
                  = sum_list (map pw_size (take k (filter (\<lambda>c. pw_page c = id_pg p) ?ws))))"
      by (rule s5)
  qed
qed

lemma chunks_example:
  "concat (map (page_chunks (maxAllocSize config9 - 1) (pageSize (dbw world9)))
             (sort_key id_pg (map snd pages9)))
   = [\<lparr>pw_page = 8, pw_start = 0, pw_size = 4096, pw_offset = 32768\<rparr>,
      \<lparr>pw_page = 9, pw_start = 0, pw_size = 5000, pw_offset = 36864\<rparr>,
      \<lparr>pw_page = 9, pw_start = 5000, pw_size = 3192, pw_offset = 41864\<rparr>]"
  by code_simp

theorem write_tx_ascending_chunks_witness:
  "db (tx world9) \<noteq> None \<and> pages (tx world9) = Some pages9
   \<and> distinct (map (\<lambda>kp. id_pg (snd kp)) pages9)
   \<and> (\<forall>tr b off. writeAt_ext env0 tr b off = None)
   \<and> 1 < maxAllocSize config9 \<and> maxAllocSize config9 \<le> 2 ^ 63
   \<and> 0 < pageSize (dbw world9)
   \<and> list_all (\<lambda>p. (uint (id_pg p) + uint (overflow p) + 1) * pageSize (dbw world9) < 2 ^ 63)
        (map snd pages9)
   \<and> (\<exists>er w'. write_tx config9 env0 world9 = Some (Ret (er, w'))
          \<and> page_writes (drop (length (trace world9)) (trace w'))
              = [\<lparr>pw_page = 8, pw_start = 0, pw_size = 4096, pw_offset = 32768\<rparr>,
                 \<lparr>pw_page = 9, pw_start = 0, pw_size = 5000, pw_offset = 36864\<rparr>,
                 \<lparr>pw_page = 9, pw_start = 5000, pw_size = 3192, pw_offset = 41864\<rparr>]
          \<and> sorted (map pw_page (page_writes (drop (length (trace world9)) (trace w')))))"
proof -
  have h1: "db (tx world9) \<noteq> None" and h2: "pages (tx world9) = Some pages9"
    by (simp_all add: world9_def world0_def init_def tx0_def)
  have h3: "distinct (map (\<lambda>kp. id_pg (snd kp)) pages9)"
    by (simp add: pages9_def)
  have h4: "writeAt_ext env0 tr b off = None" for tr b off
    by (simp add: env0_def)
  have h5: "1 < maxAllocSize config9" and h6: "maxAllocSize config9 \<le> 2 ^ 63"
    by (simp_all add: config9_def)
  have h7: "0 < pageSize (dbw world9)"
    by (simp add: world9_def world0_def db0_def)
  have h8: "list_all (\<lambda>p. (uint (id_pg p) + uint (overflow p) + 1) * pageSize (dbw world9) < 2 ^ 63)
        (map snd pages9)"
    by (simp add: pages9_def world9_def world0_def db0_def)
  then have h8': "\<forall>p \<in> snd ` set pages9.
      (uint (id_pg p) + uint (overflow p) + 1) * pageSize (dbw world9) < 2 ^ 63"
    by (simp add: list_all_iff)
  have cap: "0 < maxAllocSize config9 - 1" "maxAllocSize config9 - 1 < 2 ^ 63"
    by (simp_all add: config9_def)
  from write_tx_trace [OF h1 h2 h4 cap refl h7 h8']
  obtain er w' where r: "write_tx config9 env0 world9 = Some (Ret (er, w'))"
    and ws: "page_writes (drop (length (trace world9)) (trace w'))
      = [\<lparr>pw_page = 8, pw_start = 0, pw_size = 4096, pw_offset = 32768\<rparr>,
         \<lparr>pw_page = 9, pw_start = 0, pw_size = 5000, pw_offset = 36864\<rparr>,
         \<lparr>pw_page = 9, pw_start = 5000, pw_size = 3192, pw_offset = 41864\<rparr>]"
    unfolding chunks_example by blast
  from write_tx_ascending_chunks [OF h1 h2 h3 h4 h5 h6 h7 h8'] r
  have "sorted (map pw_page (page_writes (drop (length (trace world9)) (trace w'))))"
    by auto
  with r ws h1 h2 h3 h4 h5 h6 h7 h8 show ?thesis
    by blast
qed

subsection \<open>The commit sequence\<close>

lemma steps_append [simp]: "steps (xs @ ys) = steps xs @ steps ys"
  by (simp add: steps_def)

lemma steps_Nil [simp]: "steps [] = []"
  by (simp add: steps_def)

lemma steps_Cons [simp]: "steps (e # es) = (if is_step e then e # steps es else steps es)"
  by (simp add: steps_def)

lemma steps_PoolPut [simp]: "steps (map (\<lambda>p. PoolPut (g p)) xs) = []"
  by (induction xs) simp_all











lemma log_ev_simps [simp]:
  "tx (log_ev evs w) = tx w" "dbw (log_ev evs w) = dbw w" "trace (log_ev evs w) = trace w @ evs"
  by (simp_all add: log_ev_def)








end
